theory Spec2Isabelle
  imports Complex_Main "HOL-Library.Word"
begin

text \<open>
  The development has two parts. The first part is the program: the text segmentation and
  the audio scheduling of the \<^verbatim>\<open>MessageBubble\<close> component, the two retrying requests of
  \<^verbatim>\<open>geminiService\<close>, and the component in the event loop of the browser. The second part
  holds the properties, by the same four subjects.
\<close>

section \<open>Text segmentation (handleSpeak, the "smart chunking" block)\<close>

text \<open>
  A JavaScript string is a sequence of UTF-16 code units and \<^verbatim>\<open>.length\<close> counts code
  units; the regular expression has no \<^verbatim>\<open>u\<close> flag, so it works on code units too.
\<close>

type_synonym js_string = "16 word list"

text \<open>
  The character class \<^verbatim>\<open>[.!?\<close>U+061F\<^verbatim>\<open>:\n]\<close> of the sentence regex: full stop,
  exclamation mark, question mark, Arabic question mark, colon, line feed.
\<close>

definition isDelim :: "16 word \<Rightarrow> bool" where
  "isDelim c \<longleftrightarrow> c = 0x2E \<or> c = 0x21 \<or> c = 0x3F \<or> c = 0x061F \<or> c = 0x3A \<or> c = 0x0A"

text \<open>
  One match attempt of \<^verbatim>\<open>/[^D]+[D]+|[^D]+$/\<close> anchored at the head of \<open>s\<close> (\<open>D\<close> the
  delimiter class). Both alternatives start with a greedy, non-empty run of non-delimiters.
  The run stops at a delimiter or at the end of the input: in the first case the first
  alternative matches and takes the whole following run of delimiters; in the second case
  the first alternative fails (backtracking only shortens the run onto a non-delimiter) and
  the second alternative matches up to the end. The result is the matched text and the
  input left after it (where \<^verbatim>\<open>lastIndex\<close> points).
\<close>

definition matchAt :: "js_string \<Rightarrow> (js_string \<times> js_string) option" where
  "matchAt s =
     (let body = takeWhile (\<lambda>c. \<not> isDelim c) s;
          after = dropWhile (\<lambda>c. \<not> isDelim c) s
      in if body = [] then None
         else if after \<noteq> [] then Some (body @ takeWhile isDelim after, dropWhile isDelim after)
         else Some (body, []))"

lemma matchAt_shorter: "matchAt s = Some (m, r) \<Longrightarrow> length r < length s"
proof -
  assume a: "matchAt s = Some (m, r)"
  let ?body = "takeWhile (\<lambda>c. \<not> isDelim c) s"
  let ?after = "dropWhile (\<lambda>c. \<not> isDelim c) s"
  from a have body: "?body \<noteq> []"
    by (auto simp: matchAt_def Let_def split: if_splits)
  from a have "r = dropWhile isDelim ?after \<or> r = []"
    by (auto simp: matchAt_def Let_def split: if_splits)
  moreover have "length (dropWhile isDelim ?after) \<le> length ?after"
    by (rule length_dropWhile_le)
  moreover have "length ?body + length ?after = length s"
    by (metis length_append takeWhile_dropWhile_id)
  moreover from body obtain x xs where "?body = x # xs"
    by (cases ?body) auto
  then have "length ?body = Suc (length xs)" by simp
  ultimately show ?thesis by auto
qed

text \<open>
  \<^verbatim>\<open>String.prototype.match\<close> with the \<^verbatim>\<open>g\<close> flag: starting at \<^verbatim>\<open>lastIndex = 0\<close>, find the
  leftmost position at or after \<^verbatim>\<open>lastIndex\<close> where the regex matches, record the match,
  move \<^verbatim>\<open>lastIndex\<close> behind it, and repeat until no position matches. Where the regex does
  not match at the current position the search moves on by one code unit.
\<close>

function matchAll :: "js_string \<Rightarrow> js_string list" where
  "matchAll s =
     (if s = [] then []
      else case matchAt s of
             None \<Rightarrow> matchAll (tl s)
           | Some (m, rest) \<Rightarrow> m # matchAll rest)"
  by pat_completeness auto
termination
  by (relation "measure length") (auto dest: matchAt_shorter)

declare matchAll.simps [simp del]

text \<open>
  \<^verbatim>\<open>cleanText.match(...) || [cleanText]\<close>: \<^verbatim>\<open>match\<close> returns \<^verbatim>\<open>null\<close> when there is no match
  at all, and then the whole text is the only sentence.
\<close>

definition sentences :: "js_string \<Rightarrow> js_string list" where
  "sentences cleanText = (case matchAll cleanText of [] \<Rightarrow> [cleanText] | ms \<Rightarrow> ms)"

text \<open>
  The packing loop over the sentences, with the two variables it mutates:
  \<^verbatim>\<open>
  for (const sentence of sentences) {
      if (tempChunk.length + sentence.length > 200) { chunks.push(tempChunk); tempChunk = sentence; }
      else { tempChunk += sentence; }
  }
  if (tempChunk) chunks.push(tempChunk);
  \<close>
\<close>

fun packLoop :: "js_string list \<Rightarrow> js_string list \<Rightarrow> js_string \<Rightarrow> js_string list \<times> js_string" where
  "packLoop [] chunks tempChunk = (chunks, tempChunk)"
| "packLoop (sentence # rest) chunks tempChunk =
     (if length tempChunk + length sentence > 200
      then packLoop rest (chunks @ [tempChunk]) sentence
      else packLoop rest chunks (tempChunk @ sentence))"

definition makeChunks :: "js_string list \<Rightarrow> js_string list" where
  "makeChunks ss =
     (case packLoop ss [] [] of
        (chunks, tempChunk) \<Rightarrow> if tempChunk \<noteq> [] then chunks @ [tempChunk] else chunks)"

definition segment :: "js_string \<Rightarrow> js_string list" where
  "segment cleanText = makeChunks (sentences cleanText)"

section \<open>The component's audio state (MessageBubble)\<close>

text \<open>
  Exceptions of the JavaScript run-time that the modelled code can meet, as values.
\<close>

datatype js_error =
    InvalidCharacterError   \<comment> \<open>\<^verbatim>\<open>atob\<close> on a string that is not base64\<close>
  | RangeError              \<comment> \<open>\<^verbatim>\<open>new Int16Array(buffer)\<close> on an odd number of bytes\<close>
  | NotSupportedError       \<comment> \<open>\<^verbatim>\<open>createBuffer\<close> with a length of 0 frames\<close>
  | PoolExhausted           \<comment> \<open>no credential at the cursor\<close>
  | TransportFailure        \<comment> \<open>the request or its stream failed\<close>
  | CallbackError           \<comment> \<open>the caller's callback threw\<close>
  | InvalidStateError       \<comment> \<open>\<^verbatim>\<open>ctx.resume()\<close> was rejected\<close>

text \<open>
  An \<^verbatim>\<open>AudioBufferSourceNode\<close> after \<^verbatim>\<open>source.start(startTime)\<close>: its identity (JavaScript
  compares nodes by identity in \<^verbatim>\<open>indexOf\<close>), the channel data of its buffer and the time it
  was started at.

  Times are the \<^verbatim>\<open>double\<close>s of the audio clock. A double is a real number, and an arithmetic
  operation on doubles gives the exact result rounded to a double; that rounding is the
  parameter \<open>fl\<close> of the model, about which nothing is assumed. Comparisons and \<^verbatim>\<open>Math.max\<close>
  do not round.
\<close>

record source =
  node :: nat
  samples :: "real list"
  startedAt :: real

text \<open>\<^verbatim>\<open>buffer.duration\<close> of a buffer created at 24000 Hz: the rounded quotient.\<close>

definition duration :: "(real \<Rightarrow> real) \<Rightarrow> source \<Rightarrow> real" where
  "duration fl src = fl (real (length (samples src)) / 24000)"

text \<open>
  The state of one \<^verbatim>\<open>MessageBubble\<close>: the two React state variables, the four refs, and
  what the component has done to the page (the nodes it called \<^verbatim>\<open>stop()\<close> on, the errors it
  logged, the number of nodes it created).
\<close>

record player =
  isSpeaking :: bool
  isLoadingAudio :: bool
  audioContextRef :: bool
  sourcesRef :: "source list"
  nextStartTimeRef :: real
  isSpeakingRef :: bool
  stopCalls :: "nat list"
  console :: "js_error list"
  nodesMade :: nat

text \<open>
  \<^verbatim>\<open>new Int16Array(bytes.buffer)\<close> reads the bytes in pairs, low byte first (typed arrays use
  the byte order of the platform, little-endian on every platform a browser runs on).
\<close>

fun int16Array :: "8 word list \<Rightarrow> 16 word list" where
  "int16Array (lo # hi # rest) = word_of_nat (unat lo + 256 * unat hi) # int16Array rest"
| "int16Array _ = []"

text \<open>
  The decoding part of \<^verbatim>\<open>scheduleChunk\<close>, up to \<^verbatim>\<open>ctx.createBuffer\<close>. The browser's \<^verbatim>\<open>atob\<close> is
  a parameter: \<open>None\<close> where it throws, the decoded bytes otherwise.
\<close>

definition decodePCM :: "(js_string \<Rightarrow> 8 word list option) \<Rightarrow> js_string \<Rightarrow> js_error + real list" where
  "decodePCM atob base64 =
     (case atob base64 of
        None \<Rightarrow> Inl InvalidCharacterError
      | Some bytes \<Rightarrow>
          if odd (length bytes) then Inl RangeError
          else let float32 = map (\<lambda>w. real_of_int (sint w) / 32768) (int16Array bytes)
               in if float32 = [] then Inl NotSupportedError else Inr float32)"

text \<open>
  \<^verbatim>\<open>scheduleChunk(base64)\<close>, with \<open>now\<close> the value of \<^verbatim>\<open>ctx.currentTime\<close> during the call. The
  result is the returned node (\<open>None\<close> for \<^verbatim>\<open>null\<close>) and the new state. The cursor is set to
  the double that \<^verbatim>\<open>startTime + buffer.duration\<close> evaluates to.
\<close>

definition scheduleChunk ::
  "(real \<Rightarrow> real) \<Rightarrow> (js_string \<Rightarrow> 8 word list option) \<Rightarrow> real \<Rightarrow> js_string \<Rightarrow> player \<Rightarrow>
   source option \<times> player" where
  "scheduleChunk fl atob now base64 s =
     (if \<not> audioContextRef s then (None, s)
      else case decodePCM atob base64 of
             Inl err \<Rightarrow> (None, s\<lparr>console := console s @ [err]\<rparr>)
           | Inr float32 \<Rightarrow>
               let startTime = max now (nextStartTimeRef s);
                   src = \<lparr>node = nodesMade s, samples = float32, startedAt = startTime\<rparr>
               in (Some src,
                   s\<lparr>nodesMade := nodesMade s + 1,
                     nextStartTimeRef := fl (startTime + duration fl src),
                     sourcesRef := sourcesRef s @ [src]\<rparr>))"

text \<open>The \<^verbatim>\<open>onended\<close> handler of a node, with \<open>now\<close> the audio clock when it runs.\<close>

fun spliceNode :: "nat \<Rightarrow> source list \<Rightarrow> source list" where
  "spliceNode n [] = []"
| "spliceNode n (x # xs) = (if node x = n then xs else x # spliceNode n xs)"

definition onended :: "real \<Rightarrow> nat \<Rightarrow> player \<Rightarrow> player" where
  "onended now n s =
     (let s1 = s\<lparr>sourcesRef := spliceNode n (sourcesRef s)\<rparr>
      in if sourcesRef s1 = [] \<and> nextStartTimeRef s1 \<le> now
         then s1\<lparr>isSpeaking := False, isSpeakingRef := False\<rparr>
         else s1)"

text \<open>\<^verbatim>\<open>stopAudio()\<close>; an exception of \<^verbatim>\<open>source.stop()\<close> is swallowed per node.\<close>

definition stopAudio :: "player \<Rightarrow> player" where
  "stopAudio s =
     s\<lparr>isSpeakingRef := False,
       stopCalls := stopCalls s @ map node (sourcesRef s),
       sourcesRef := [],
       isSpeaking := False,
       isLoadingAudio := False,
       nextStartTimeRef := 0\<rparr>"

text \<open>
  A run of \<^verbatim>\<open>scheduleChunk\<close> calls, each with the clock reading it sees. The result lists the
  calls that returned a node, with that reading and the node.
\<close>

fun scheduleAll ::
  "(real \<Rightarrow> real) \<Rightarrow> (js_string \<Rightarrow> 8 word list option) \<Rightarrow> (real \<times> js_string) list \<Rightarrow> player \<Rightarrow>
   (real \<times> source) list \<times> player" where
  "scheduleAll fl atob [] s = ([], s)"
| "scheduleAll fl atob ((now, base64) # calls) s =
     (case scheduleChunk fl atob now base64 s of
        (None, s') \<Rightarrow> scheduleAll fl atob calls s'
      | (Some src, s') \<Rightarrow>
          (case scheduleAll fl atob calls s' of (out, s'') \<Rightarrow> ((now, src) # out, s'')))"

text \<open>
  The timeline cursor before the \<open>i\<close>-th scheduled node of a run that started at \<open>c\<close>: for
  \<open>i > 0\<close> the double that the code computes as start time plus duration of the node before.
\<close>

definition cursorBefore :: "(real \<Rightarrow> real) \<Rightarrow> real \<Rightarrow> (real \<times> source) list \<Rightarrow> nat \<Rightarrow> real" where
  "cursorBefore fl c out i =
     (if i = 0 then c
      else fl (startedAt (snd (out ! (i - 1))) + duration fl (snd (out ! (i - 1)))))"

text \<open>
  The invariant of such a run, by recursion over the scheduled nodes: each starts at the
  larger of its clock reading and the cursor, and moves the cursor to its own end.
\<close>

fun gaplessFrom :: "(real \<Rightarrow> real) \<Rightarrow> real \<Rightarrow> (real \<times> source) list \<Rightarrow> bool" where
  "gaplessFrom fl c [] = True"
| "gaplessFrom fl c ((now, src) # rest) =
     (startedAt src = max now c \<and> gaplessFrom fl (fl (startedAt src + duration fl src)) rest)"

fun cursorAfter :: "(real \<Rightarrow> real) \<Rightarrow> real \<Rightarrow> (real \<times> source) list \<Rightarrow> real" where
  "cursorAfter fl c [] = c"
| "cursorAfter fl c ((now, src) # rest) = cursorAfter fl (fl (startedAt src + duration fl src)) rest"

text \<open>
  The state of a freshly mounted component (the initial values of \<^verbatim>\<open>useState\<close> and
  \<^verbatim>\<open>useRef\<close>), and a decoder for the examples below: it agrees with \<^verbatim>\<open>atob\<close> on the payload
  \<^verbatim>\<open>"AAA="\<close> (two zero bytes, one sample) and on \<^verbatim>\<open>"!"\<close> (not base64).
\<close>

definition idle :: player where
  "idle = \<lparr>isSpeaking = False, isLoadingAudio = False, audioContextRef = False, sourcesRef = [],
            nextStartTimeRef = 0, isSpeakingRef = False, stopCalls = [], console = [], nodesMade = 0\<rparr>"

definition atobSample :: "js_string \<Rightarrow> 8 word list option" where
  "atobSample b = (if b = [0x41, 0x41, 0x41, 0x3D] then Some [0, 0] else None)"

section \<open>Credential rotation and the two retrying requests (geminiService)\<close>

text \<open>
  Modelled from the spec: the credential pool of \<^verbatim>\<open>utils/apiKeyManager\<close>, whose source is not
  among the files. The spec, section 3: an "ordered sequence of credential tokens; a cursor
  index into it", "mutated only by the rotation operation".
\<close>

record pool =
  keys :: "js_string list"
  cursor :: nat

text \<open>
  Modelled from the spec: \<^verbatim>\<open>getApiKey\<close> is the spec's \<^verbatim>\<open>current()\<close>, which "returns the token at
  the cursor; fails with \<^verbatim>\<open>PoolExhausted\<close> if the cursor is past the end".
\<close>

definition getApiKey :: "pool \<Rightarrow> js_error + js_string" where
  "getApiKey p = (if cursor p < length (keys p) then Inr (keys p ! cursor p) else Inl PoolExhausted)"

text \<open>
  Modelled from the spec: \<^verbatim>\<open>rotateApiKey\<close> is the spec's \<^verbatim>\<open>rotate()\<close>, which "advances the
  cursor by one; returns whether a valid next credential exists (boolean). Never wraps
  around." The result is that boolean and the pool afterwards.
\<close>

definition rotateApiKey :: "pool \<Rightarrow> bool \<times> pool" where
  "rotateApiKey p = (cursor p + 1 < length (keys p), p\<lparr>cursor := cursor p + 1\<rparr>)"

text \<open>
  The pool as it is after \<open>k\<close> calls of \<^verbatim>\<open>rotateApiKey\<close>. It names the pool that the attempt
  after \<open>k\<close> rotations reads its credential from; no function of the program computes it.
\<close>

fun poolAt :: "nat \<Rightarrow> pool \<Rightarrow> pool" where
  "poolAt 0 p = p"
| "poolAt (Suc k) p = poolAt k (snd (rotateApiKey p))"

subsection \<open>streamSpeech\<close>

text \<open>
  The speech service as a parameter: for a credential, a text and the number of the attempt
  it answers with a stream, given here as the chunks received (each with its inline audio
  data, if it has any) and the error that broke the request or the stream, if one did.
  The caller's callback is a parameter too: \<open>Some e\<close> where it throws.
\<close>

type_synonym speech_service = "js_string \<Rightarrow> js_string \<Rightarrow> nat \<Rightarrow> js_string option list \<times> js_error option"

type_synonym callback = "js_string \<Rightarrow> js_error option"

text \<open>
  The \<^verbatim>\<open>for await\<close> loop over the chunks received: \<^verbatim>\<open>if (audioData) onAudioChunk(audioData)\<close>
  (the empty string is falsy). The result is the data handed to the callback and the
  exception that ended the loop early, if any.
\<close>

fun deliver :: "callback \<Rightarrow> js_string option list \<Rightarrow> js_string list \<times> js_error option" where
  "deliver onAudioChunk [] = ([], None)"
| "deliver onAudioChunk (None # cs) = deliver onAudioChunk cs"
| "deliver onAudioChunk (Some audioData # cs) =
     (if audioData = [] then deliver onAudioChunk cs
      else case onAudioChunk audioData of
             Some e \<Rightarrow> ([audioData], Some e)
           | None \<Rightarrow> (case deliver onAudioChunk cs of (ds, r) \<Rightarrow> (audioData # ds, r)))"

text \<open>The \<^verbatim>\<open>try\<close> block of one attempt: what the callback received and how the block ended.\<close>

definition speechAttempt ::
  "speech_service \<Rightarrow> callback \<Rightarrow> js_string \<Rightarrow> nat \<Rightarrow> pool \<Rightarrow> js_string list \<times> js_error option" where
  "speechAttempt service onAudioChunk utterance retryCount p =
     (case getApiKey p of
        Inl e \<Rightarrow> ([], Some e)
      | Inr key \<Rightarrow>
          (case service key utterance retryCount of
             (received, broke) \<Rightarrow>
               (case deliver onAudioChunk received of
                  (ds, Some e) \<Rightarrow> (ds, Some e)
                | (ds, None) \<Rightarrow> (ds, broke))))"

text \<open>
  One call of \<^verbatim>\<open>streamSpeech\<close> with everything that follows from it. The retry in the
  \<^verbatim>\<open>catch\<close> block is called without \<^verbatim>\<open>await\<close> or \<^verbatim>\<open>return\<close>: the promise of the outer call
  settles when the \<^verbatim>\<open>catch\<close> block is left, and what the retry hands to the callback comes
  after that.
\<close>

record speech_run =
  settled :: "js_error + unit"
  heard :: "js_string list"
  heardLater :: "js_string list"
  attempts :: "(js_string \<times> nat \<times> bool) list"
  rotations :: "bool list"
  poolAfter :: pool

function streamSpeech :: "speech_service \<Rightarrow> callback \<Rightarrow> js_string \<Rightarrow> nat \<Rightarrow> pool \<Rightarrow> speech_run" where
  "streamSpeech service onAudioChunk utterance retryCount p =
     (case speechAttempt service onAudioChunk utterance retryCount p of
        (ds, None) \<Rightarrow>
          \<lparr>settled = Inr (), heard = ds, heardLater = [],
           attempts = [(utterance, retryCount, False)], rotations = [], poolAfter = p\<rparr>
      | (ds, Some err) \<Rightarrow>
          if retryCount < 3 then
            (case rotateApiKey p of
               (True, p') \<Rightarrow>
                 (let r = streamSpeech service onAudioChunk utterance (retryCount + 1) p'
                  in \<lparr>settled = Inr (), heard = ds, heardLater = heard r @ heardLater r,
                      attempts = (utterance, retryCount, True) # attempts r,
                      rotations = True # rotations r, poolAfter = poolAfter r\<rparr>)
             | (False, p') \<Rightarrow>
                 \<lparr>settled = Inr (), heard = ds, heardLater = [],
                  attempts = [(utterance, retryCount, True)], rotations = [False], poolAfter = p'\<rparr>)
          else
            \<lparr>settled = Inr (), heard = ds, heardLater = [],
             attempts = [(utterance, retryCount, True)], rotations = [], poolAfter = p\<rparr>)"
  by pat_completeness auto
termination
  by (relation "measure (\<lambda>(service, onAudioChunk, utterance, retryCount, p). 3 - retryCount)") auto

declare streamSpeech.simps [simp del]

subsection \<open>generateStreamResponse\<close>

text \<open>
  A chunk of the chat stream: its text (\<^verbatim>\<open>chunk.text || ''\<close>) and the title and URI of each of
  its grounding chunks that has a \<^verbatim>\<open>web\<close> entry (the empty string where one is missing).
\<close>

record reply_chunk =
  chunkText :: js_string
  webSources :: "(js_string \<times> js_string) list"

type_synonym chat_service = "js_string \<Rightarrow> nat \<Rightarrow> reply_chunk list \<times> js_error option"

text \<open>The fixed strings of the function, as UTF-16 code units.\<close>

definition sourceWord :: js_string where
  "sourceWord = [0x0645, 0x0635, 0x062F, 0x0631]"

definition sourcesHeader :: js_string where
  "sourcesHeader = [0x0A, 0x0A, 0x2A, 0x2A, 0x0627, 0x0644, 0x0645, 0x0635, 0x0627, 0x062F, 0x0631,
                    0x3A, 0x2A, 0x2A, 0x0A]"

definition apology :: js_string where
  "apology =
    [0x0639, 0x0630, 0x0631, 0x0627, 0x064B, 0x060C, 0x0020, 0x0627, 0x0644, 0x062E, 0x062F, 0x0645,
     0x0629, 0x0020, 0x0645, 0x0634, 0x063A, 0x0648, 0x0644, 0x0629, 0x0020, 0x062C, 0x062F, 0x0627,
     0x064B, 0x0020, 0x062D, 0x0627, 0x0644, 0x064A, 0x0627, 0x064B, 0x0020, 0x0028, 0x0646, 0x0641,
     0x0630, 0x0020, 0x0631, 0x0635, 0x064A, 0x062F, 0x0020, 0x0627, 0x0644, 0x0645, 0x0641, 0x0627,
     0x062A, 0x064A, 0x062D, 0x0029, 0x002E, 0x0020, 0x064A, 0x0631, 0x062C, 0x0649, 0x0020, 0x0627,
     0x0644, 0x0645, 0x062D, 0x0627, 0x0648, 0x0644, 0x0629, 0x0020, 0x0644, 0x0627, 0x062D, 0x0642,
     0x0627, 0x064B, 0x0020, 0x0623, 0x0648, 0x0020, 0x0627, 0x0644, 0x062A, 0x0648, 0x0627, 0x0635,
     0x0644, 0x0020, 0x0645, 0x0639, 0x0020, 0x0627, 0x0644, 0x062F, 0x0639, 0x0645, 0x002E]"

text \<open>\<^verbatim>\<open>groundingSources.add(...)\<close> on a \<^verbatim>\<open>Set\<close>, kept in insertion order.\<close>

definition addSource :: "js_string list \<Rightarrow> js_string \<times> js_string \<Rightarrow> js_string list" where
  "addSource found w =
     (case w of (title, uri) \<Rightarrow>
        if uri = [] then found
        else let entry = [0x5B] @ (if title = [] then sourceWord else title) @ [0x5D, 0x28] @ uri @ [0x29]
             in if entry \<in> set found then found else found @ [entry])"

text \<open>\<^verbatim>\<open>Array.from(groundingSources).map(s => `- ${s}`).join('\n')\<close>.\<close>

fun sourceLines :: "js_string list \<Rightarrow> js_string" where
  "sourceLines [] = []"
| "sourceLines [s] = [0x2D, 0x20] @ s"
| "sourceLines (s # rest) = [0x2D, 0x20] @ s @ [0x0A] @ sourceLines rest"

text \<open>
  The \<^verbatim>\<open>for await\<close> loop over the chunks received, with the accumulated text, the sources
  found and the texts shown (handed to \<^verbatim>\<open>onChunk\<close>) so far.
\<close>

fun readReply ::
  "callback \<Rightarrow> reply_chunk list \<Rightarrow> js_string \<Rightarrow> js_string list \<Rightarrow> js_string list \<Rightarrow>
   (js_string \<times> js_string list \<times> js_string list) \<times> js_error option" where
  "readReply onChunk [] fullText found shown = ((fullText, found, shown), None)"
| "readReply onChunk (c # cs) fullText found shown =
     (let fullText' = fullText @ chunkText c;
          found' = foldl addSource found (webSources c)
      in case onChunk fullText' of
           Some e \<Rightarrow> ((fullText', found', shown @ [fullText']), Some e)
         | None \<Rightarrow> readReply onChunk cs fullText' found' (shown @ [fullText']))"

text \<open>
  The \<^verbatim>\<open>try\<close> block of one attempt. What is sent (model, configuration, history, prompt) is
  computed from the arguments without side effects and is the same at every attempt; the
  parameter \<open>chat\<close> gives the answer of the service to it. The result is the texts shown and
  either the returned text or the exception that left the block.
\<close>

definition chatAttempt ::
  "chat_service \<Rightarrow> callback \<Rightarrow> nat \<Rightarrow> pool \<Rightarrow> js_string list \<times> (js_error + js_string)" where
  "chatAttempt chat onChunk retryCount p =
     (case getApiKey p of
        Inl e \<Rightarrow> ([], Inl e)
      | Inr key \<Rightarrow>
          (case chat key retryCount of
             (received, broke) \<Rightarrow>
               (case readReply onChunk received [] [] [] of
                  ((fullText, found, shown), Some e) \<Rightarrow> (shown, Inl e)
                | ((fullText, found, shown), None) \<Rightarrow>
                    (case broke of
                       Some e \<Rightarrow> (shown, Inl e)
                     | None \<Rightarrow>
                         if found \<noteq> [] then
                           (let fullText' = fullText @ sourcesHeader @ sourceLines found
                            in case onChunk fullText' of
                                 Some e \<Rightarrow> (shown @ [fullText'], Inl e)
                               | None \<Rightarrow> (shown @ [fullText'], Inr fullText'))
                         else (shown, Inr fullText)))))"

record chat_run =
  outcome :: "js_error + js_string"
  shown :: "js_string list"
  tries :: "(nat \<times> bool) list"
  rotated :: "bool list"
  poolLeft :: pool

function generateStreamResponse :: "chat_service \<Rightarrow> callback \<Rightarrow> nat \<Rightarrow> pool \<Rightarrow> chat_run" where
  "generateStreamResponse chat onChunk retryCount p =
     (case chatAttempt chat onChunk retryCount p of
        (sh, Inr fullText) \<Rightarrow>
          \<lparr>outcome = Inr fullText, shown = sh, tries = [(retryCount, False)], rotated = [], poolLeft = p\<rparr>
      | (sh, Inl err) \<Rightarrow>
          if retryCount < 4 then
            (case rotateApiKey p of
               (True, p') \<Rightarrow>
                 (let r = generateStreamResponse chat onChunk (retryCount + 1) p'
                  in \<lparr>outcome = outcome r, shown = sh @ shown r,
                      tries = (retryCount, True) # tries r,
                      rotated = True # rotated r, poolLeft = poolLeft r\<rparr>)
             | (False, p') \<Rightarrow>
                 \<lparr>outcome = Inr apology, shown = sh, tries = [(retryCount, True)],
                  rotated = [False], poolLeft = p'\<rparr>)
          else
            \<lparr>outcome = Inr apology, shown = sh, tries = [(retryCount, True)],
             rotated = [], poolLeft = p\<rparr>)"
  by pat_completeness auto
termination
  by (relation "measure (\<lambda>(chat, onChunk, retryCount, p). 4 - retryCount)") auto

declare generateStreamResponse.simps [simp del]

section \<open>The orchestration of a playback (handleSpeak)\<close>

subsection \<open>Cleaning the message text\<close>

text \<open>
  The class \<^verbatim>\<open>\s\<close> of a JavaScript regex, which is also what \<^verbatim>\<open>trim()\<close> strips: white space
  and line terminators.
\<close>

definition isSpace :: "16 word \<Rightarrow> bool" where
  "isSpace c \<longleftrightarrow>
     c = 0x09 \<or> c = 0x0A \<or> c = 0x0B \<or> c = 0x0C \<or> c = 0x0D \<or> c = 0x20 \<or> c = 0xA0 \<or>
     c = 0x1680 \<or> (0x2000 \<le> c \<and> c \<le> 0x200A) \<or> c = 0x2028 \<or> c = 0x2029 \<or>
     c = 0x202F \<or> c = 0x205F \<or> c = 0x3000 \<or> c = 0xFEFF"

definition fence :: js_string where
  "fence = [0x60, 0x60, 0x60]"

text \<open>
  \<^verbatim>\<open>.replace(/```[\s\S]*?```/g, '')\<close>: \<open>afterFence\<close> finds the nearest closing fence (the
  lazy quantifier) and gives the input behind it; where an opening fence has no closing
  one the regex does not match there and the search moves on by one code unit.
\<close>

fun afterFence :: "js_string \<Rightarrow> js_string option" where
  "afterFence [] = None"
| "afterFence (c # cs) =
     (if take 3 (c # cs) = fence then Some (drop 3 (c # cs)) else afterFence cs)"

lemma afterFence_shorter: "afterFence s = Some r \<Longrightarrow> length r < length s"
  by (induction s) (auto simp: fence_def split: if_splits)

function stripCodeBlocks :: "js_string \<Rightarrow> js_string" where
  "stripCodeBlocks s =
     (if s = [] then []
      else if take 3 s = fence then
        (case afterFence (drop 3 s) of
           Some r \<Rightarrow> stripCodeBlocks r
         | None \<Rightarrow> hd s # stripCodeBlocks (tl s))
      else hd s # stripCodeBlocks (tl s))"
  by pat_completeness auto
termination
proof (relation "measure length")
  show "wf (measure length)" by simp
next
  fix s :: js_string and r
  assume "s \<noteq> []" "take 3 s = fence" "afterFence (drop 3 s) = Some r"
  from afterFence_shorter [OF this(3)] show "(r, s) \<in> measure length" by simp
qed auto

declare stripCodeBlocks.simps [simp del]

text \<open>\<^verbatim>\<open>.replace(/[*#`_\-]/g, ' ')\<close>.\<close>

definition markToSpace :: "16 word \<Rightarrow> 16 word" where
  "markToSpace c =
     (if c = 0x2A \<or> c = 0x23 \<or> c = 0x60 \<or> c = 0x5F \<or> c = 0x2D then 0x20 else c)"

text \<open>
  \<^verbatim>\<open>.replace(/https?:\/\/\S+/g, \<close>\<open>link\<close>\<^verbatim>\<open>)\<close>, where \<open>link\<close> is the Arabic word for it: \<open>urlAt\<close> is
  one match attempt at the head of the input and gives the input behind the match.
\<close>

definition linkWord :: js_string where
  "linkWord = [0x0631, 0x0627, 0x0628, 0x0637]"

definition urlAt :: "js_string \<Rightarrow> js_string option" where
  "urlAt s =
     (let behind =
            (if take 8 s = [0x68, 0x74, 0x74, 0x70, 0x73, 0x3A, 0x2F, 0x2F] then Some (drop 8 s)
             else if take 7 s = [0x68, 0x74, 0x74, 0x70, 0x3A, 0x2F, 0x2F] then Some (drop 7 s)
             else None)
      in case behind of
           None \<Rightarrow> None
         | Some t \<Rightarrow>
             if takeWhile (\<lambda>c. \<not> isSpace c) t = [] then None
             else Some (dropWhile (\<lambda>c. \<not> isSpace c) t))"

lemma urlAt_shorter: "urlAt s = Some r \<Longrightarrow> length r < length s"
proof -
  assume a: "urlAt s = Some r"
  then obtain t where t: "r = dropWhile (\<lambda>c. \<not> isSpace c) t" "t = drop 8 s \<or> t = drop 7 s"
    and s: "take 8 s = [0x68, 0x74, 0x74, 0x70, 0x73, 0x3A, 0x2F, 0x2F] \<or>
            take 7 s = [0x68, 0x74, 0x74, 0x70, 0x3A, 0x2F, 0x2F]"
    by (auto simp: urlAt_def Let_def split: if_splits)
  from s have "s \<noteq> []" by auto
  with t(2) have "length t < length s" by auto
  moreover have "length r \<le> length t" unfolding t(1) by (rule length_dropWhile_le)
  ultimately show ?thesis by simp
qed

function replaceUrls :: "js_string \<Rightarrow> js_string" where
  "replaceUrls s =
     (if s = [] then []
      else case urlAt s of
             Some r \<Rightarrow> linkWord @ replaceUrls r
           | None \<Rightarrow> hd s # replaceUrls (tl s))"
  by pat_completeness auto
termination
  by (relation "measure length") (auto dest: urlAt_shorter)

declare replaceUrls.simps [simp del]

definition trim :: "js_string \<Rightarrow> js_string" where
  "trim s = rev (dropWhile isSpace (rev (dropWhile isSpace s)))"

text \<open>The whole chain, ending with \<^verbatim>\<open>.trim().substring(0, 2000)\<close>.\<close>

definition cleanText :: "js_string \<Rightarrow> js_string" where
  "cleanText messageText =
     take 2000 (trim (replaceUrls (map markToSpace (stripCodeBlocks messageText))))"

text \<open>A text of plain letters and sentence punctuation is left as it is.\<close>

definition plain :: "16 word \<Rightarrow> bool" where
  "plain c \<longleftrightarrow> \<not> isSpace c \<and> c \<noteq> 0x2A \<and> c \<noteq> 0x23 \<and> c \<noteq> 0x60 \<and> c \<noteq> 0x5F \<and> c \<noteq> 0x2D \<and> c \<noteq> 0x68"

subsection \<open>The component in the event loop\<close>

text \<open>
  JavaScript runs one task at a time; an \<^verbatim>\<open>async\<close> function runs until its next \<^verbatim>\<open>await\<close>
  and goes on in a later task. So the component is modelled as a state and a step per
  event. A call of \<^verbatim>\<open>streamSpeech\<close> that waits for the service is an entry of \<open>inFlight\<close>;
  \<open>waiting\<close> holds the chunks that the loop of \<^verbatim>\<open>handleSpeak\<close> has left when it awaits this
  call, and is \<open>None\<close> for the retry that \<^verbatim>\<open>streamSpeech\<close> starts without awaiting it.
\<close>

record call =
  callId :: nat
  spoken :: js_string
  retry :: nat
  waiting :: "js_string list option"

text \<open>
  The bubble, the credential pool of the page, the calls in flight, the invocations of
  \<^verbatim>\<open>handleSpeak\<close> that wait at \<^verbatim>\<open>await ctx.resume()\<close> (each with its \<^verbatim>\<open>cleanText\<close>), and two
  logs: every call of \<^verbatim>\<open>streamSpeech\<close> made (text and retry count) and every payload handed
  to \<^verbatim>\<open>scheduleChunk\<close>.
\<close>

record world =
  ui :: player
  credentials :: pool
  inFlight :: "call list"
  callsMade :: nat
  resuming :: "js_string list"
  speechCalls :: "(js_string \<times> nat) list"
  scheduled :: "js_string list"

text \<open>
  \<^verbatim>\<open>streamSpeech(text, onAudioChunk, retryCount)\<close> up to its first \<^verbatim>\<open>await\<close>. How the attempt
  ends (a failure of \<^verbatim>\<open>getAIClient\<close> included) is an event.
\<close>

definition callStreamSpeech :: "js_string \<Rightarrow> nat \<Rightarrow> js_string list option \<Rightarrow> world \<Rightarrow> world" where
  "callStreamSpeech utterance n rest w =
     w\<lparr>inFlight := inFlight w @ [\<lparr>callId = callsMade w, spoken = utterance, retry = n, waiting = rest\<rparr>],
       callsMade := callsMade w + 1,
       speechCalls := speechCalls w @ [(utterance, n)]\<rparr>"

text \<open>
  The loop \<^verbatim>\<open>for (const chunk of chunks) { if (!isSpeakingRef.current) break; await
  streamSpeech(chunk, ...) }\<close> from the chunks that are left, up to its next \<^verbatim>\<open>await\<close>.
\<close>

definition continueLoop :: "js_string list \<Rightarrow> world \<Rightarrow> world" where
  "continueLoop chunks w =
     (case chunks of
        [] \<Rightarrow> w
      | chunk # rest \<Rightarrow>
          if \<not> isSpeakingRef (ui w) then w else callStreamSpeech chunk 0 (Some rest) w)"

text \<open>\<^verbatim>\<open>handleSpeak\<close> from "Reset timing" on.\<close>

definition startLoop :: "js_string \<Rightarrow> real \<Rightarrow> world \<Rightarrow> world" where
  "startLoop cleaned now w =
     continueLoop (segment cleaned) (w\<lparr>ui := (ui w)\<lparr>nextStartTimeRef := now\<rparr>\<rparr>)"

text \<open>
  \<^verbatim>\<open>handleSpeak()\<close> up to its first \<^verbatim>\<open>await\<close>, for the message text of the bubble; \<open>suspended\<close>
  says whether the audio context is found suspended, \<open>now\<close> is its clock. The function reads
  \<^verbatim>\<open>isSpeaking\<close> and \<^verbatim>\<open>isLoadingAudio\<close> as of the last render, taken here to be the current
  values.
\<close>

definition handleSpeak :: "js_string \<Rightarrow> bool \<Rightarrow> real \<Rightarrow> world \<Rightarrow> world" where
  "handleSpeak messageText suspended now w =
     (if isSpeaking (ui w) then w\<lparr>ui := stopAudio (ui w)\<rparr>
      else if isLoadingAudio (ui w) then w
      else
        let w1 = w\<lparr>ui := (ui w)\<lparr>isLoadingAudio := True, isSpeaking := True, isSpeakingRef := True\<rparr>\<rparr>;
            cleaned = cleanText messageText
        in if cleaned = [] then w1\<lparr>ui := (ui w1)\<lparr>isLoadingAudio := False, isSpeaking := False\<rparr>\<rparr>
           else
             let w2 = w1\<lparr>ui := (ui w1)\<lparr>audioContextRef := True\<rparr>\<rparr>
             in if suspended then w2\<lparr>resuming := resuming w2 @ [cleaned]\<rparr>
                else startLoop cleaned now w2)"

text \<open>
  The button, \<^verbatim>\<open><button onClick={handleSpeak} disabled={isLoadingAudio}>\<close>: the only caller of
  \<^verbatim>\<open>handleSpeak\<close>. A disabled button dispatches no click.
\<close>

definition pressButton :: "js_string \<Rightarrow> bool \<Rightarrow> real \<Rightarrow> world \<Rightarrow> world" where
  "pressButton messageText suspended now w =
     (if isLoadingAudio (ui w) then w else handleSpeak messageText suspended now w)"

text \<open>The callback that \<^verbatim>\<open>handleSpeak\<close> passes to \<^verbatim>\<open>streamSpeech\<close>.\<close>

definition onAudioChunk ::
  "(real \<Rightarrow> real) \<Rightarrow> (js_string \<Rightarrow> 8 word list option) \<Rightarrow> real \<Rightarrow> js_string \<Rightarrow> world \<Rightarrow> world" where
  "onAudioChunk fl atob now base64 w =
     (if \<not> isSpeakingRef (ui w) then w
      else w\<lparr>ui := snd (scheduleChunk fl atob now base64 ((ui w)\<lparr>isLoadingAudio := False\<rparr>)),
             scheduled := scheduled w @ [base64]\<rparr>)"

text \<open>
  The \<^verbatim>\<open>catch\<close> block of \<^verbatim>\<open>streamSpeech\<close>: \<^verbatim>\<open>if (retryCount < 3 && rotateApiKey())
  streamSpeech(text, onAudioChunk, retryCount + 1);\<close>
\<close>

definition catchRetry :: "call \<Rightarrow> world \<Rightarrow> world" where
  "catchRetry c w =
     (let w1 = w\<lparr>ui := (ui w)\<lparr>console := console (ui w) @ [TransportFailure]\<rparr>\<rparr>
      in if retry c < 3 then
           (case rotateApiKey (credentials w1) of
              (True, p') \<Rightarrow> callStreamSpeech (spoken c) (retry c + 1) None (w1\<lparr>credentials := p'\<rparr>)
            | (False, p') \<Rightarrow> w1\<lparr>credentials := p'\<rparr>)
         else w1)"

text \<open>The promise of a call settles: the loop that awaits it, if any, goes on.\<close>

definition settle :: "call \<Rightarrow> world \<Rightarrow> world" where
  "settle c w = (case waiting c of None \<Rightarrow> w | Some rest \<Rightarrow> continueLoop rest w)"

datatype event =
    Speak bool real                    \<comment> \<open>the user presses the button\<close>
  | Resumed real                       \<comment> \<open>the oldest pending \<^verbatim>\<open>ctx.resume()\<close> is fulfilled\<close>
  | ResumeFailed                       \<comment> \<open>it is rejected\<close>
  | Frame nat "js_string option" real  \<comment> \<open>the stream of a call yields a chunk\<close>
  | StreamEnd nat                      \<comment> \<open>the stream of a call ends\<close>
  | StreamError nat                    \<comment> \<open>the attempt of a call fails\<close>
  | Ended nat real                     \<comment> \<open>a node fires \<^verbatim>\<open>onended\<close>\<close>
  | Unmount                            \<comment> \<open>the cleanup of the effect\<close>

definition step ::
  "(real \<Rightarrow> real) \<Rightarrow> (js_string \<Rightarrow> 8 word list option) \<Rightarrow> js_string \<Rightarrow> event \<Rightarrow> world \<Rightarrow> world" where
  "step fl atob messageText e w =
     (case e of
        Speak suspended now \<Rightarrow> pressButton messageText suspended now w
      | Resumed now \<Rightarrow>
          (case resuming w of
             [] \<Rightarrow> w
           | cleaned # others \<Rightarrow> startLoop cleaned now (w\<lparr>resuming := others\<rparr>))
      | ResumeFailed \<Rightarrow>
          (case resuming w of
             [] \<Rightarrow> w
           | cleaned # others \<Rightarrow>
               w\<lparr>resuming := others,
                 ui := (ui w)\<lparr>console := console (ui w) @ [InvalidStateError],
                              isLoadingAudio := False, isSpeaking := False\<rparr>\<rparr>)
      | Frame k audioData now \<Rightarrow>
          (case find (\<lambda>c. callId c = k) (inFlight w) of
             None \<Rightarrow> w
           | Some c \<Rightarrow>
               (case audioData of
                  None \<Rightarrow> w
                | Some base64 \<Rightarrow> if base64 = [] then w else onAudioChunk fl atob now base64 w))
      | StreamEnd k \<Rightarrow>
          (case find (\<lambda>c. callId c = k) (inFlight w) of
             None \<Rightarrow> w
           | Some c \<Rightarrow> settle c (w\<lparr>inFlight := filter (\<lambda>c. callId c \<noteq> k) (inFlight w)\<rparr>))
      | StreamError k \<Rightarrow>
          (case find (\<lambda>c. callId c = k) (inFlight w) of
             None \<Rightarrow> w
           | Some c \<Rightarrow>
               settle c (catchRetry c (w\<lparr>inFlight := filter (\<lambda>c. callId c \<noteq> k) (inFlight w)\<rparr>)))
      | Ended n now \<Rightarrow> w\<lparr>ui := onended now n (ui w)\<rparr>
      | Unmount \<Rightarrow> w\<lparr>ui := stopAudio (ui w)\<rparr>)"

definition run ::
  "(real \<Rightarrow> real) \<Rightarrow> (js_string \<Rightarrow> 8 word list option) \<Rightarrow> js_string \<Rightarrow> event list \<Rightarrow> world \<Rightarrow> world" where
  "run fl atob messageText es w = foldl (\<lambda>w e. step fl atob messageText e w) w es"

definition mounted :: "pool \<Rightarrow> world" where
  "mounted p = \<lparr>ui = idle, credentials = p, inFlight = [], callsMade = 0, resuming = [],
                speechCalls = [], scheduled = []\<rparr>"

text \<open>What the button shows: the spinner while loading, else "stop" while speaking.\<close>

datatype phase = Idle | Loading | Speaking

definition phase :: "player \<Rightarrow> phase" where
  "phase s = (if isLoadingAudio s then Loading else if isSpeaking s then Speaking else Idle)"

definition isSpeak :: "event \<Rightarrow> bool" where
  "isSpeak e = (case e of Speak suspended now \<Rightarrow> True | _ \<Rightarrow> False)"

text \<open>The requests of the loop itself are the calls with retry count 0.\<close>

definition loopCalls :: "world \<Rightarrow> js_string list" where
  "loopCalls w = map fst (filter (\<lambda>c. snd c = 0) (speechCalls w))"

subsection \<open>Example runs\<close>

text \<open>
  A pool of two credentials; a message of two sentences of 151 code units each, which makes
  two chunks; and a message whose first sentence has 202 code units. The runs below are
  given for any rounding \<open>fl\<close>.
\<close>

definition twoKeys :: pool where
  "twoKeys = \<lparr>keys = [[0x6B, 0x31], [0x6B, 0x32]], cursor = 0\<rparr>"

text \<open>
  Two services that fail with the first of these credentials, after a first chunk has
  arrived, and answer with the second.
\<close>

definition flaky :: speech_service where
  "flaky key utterance retryCount =
     (if key = [0x6B, 0x31] then ([Some [0x41]], Some TransportFailure) else ([Some [0x42]], None))"

definition flakyChat :: chat_service where
  "flakyChat key retryCount =
     (if key = [0x6B, 0x31] then ([\<lparr>chunkText = [0x61], webSources = []\<rparr>], Some TransportFailure)
      else ([\<lparr>chunkText = [0x62], webSources = []\<rparr>], None))"

definition twoChunks :: js_string where
  "twoChunks = replicate 150 0x61 @ [0x2E] @ replicate 150 0x62 @ [0x2E]"

definition longFirst :: js_string where
  "longFirst = replicate 201 0x61 @ [0x2E, 0x62]"

text \<open>
  The bubble of the two-chunk message after the button was pressed and the first frame of
  the first chunk has come: one node is scheduled, the call for the first chunk is in
  flight, the loop waits for it with the second chunk left.
\<close>

definition playing :: "(real \<Rightarrow> real) \<Rightarrow> world" where
  "playing fl =
     run fl atobSample twoChunks [Speak False 0, Frame 0 (Some [0x41, 0x41, 0x41, 0x3D]) 0]
       (mounted twoKeys)"


section \<open>Properties\<close>

subsection \<open>What the splitter keeps\<close>

lemma matchAt_None_iff: "matchAt s = None \<longleftrightarrow> (s = [] \<or> isDelim (hd s))"
  by (cases s) (auto simp: matchAt_def Let_def)

lemma matchAt_Some_append:
  assumes "matchAt s = Some (m, r)"
  shows "m @ r = s" and "m \<noteq> []" and "\<not> isDelim (hd s)" and "r \<noteq> [] \<Longrightarrow> \<not> isDelim (hd r)"
proof -
  let ?body = "takeWhile (\<lambda>c. \<not> isDelim c) s"
  let ?after = "dropWhile (\<lambda>c. \<not> isDelim c) s"
  have split: "?body @ ?after = s" by simp
  from assms have body: "?body \<noteq> []"
    by (auto simp: matchAt_def Let_def split: if_splits)
  show "m @ r = s"
  proof (cases "?after = []")
    case True
    with assms body have "m = ?body" "r = []"
      by (auto simp: matchAt_def Let_def split: if_splits)
    with True split show ?thesis by simp
  next
    case False
    with assms body have "m = ?body @ takeWhile isDelim ?after" "r = dropWhile isDelim ?after"
      by (auto simp: matchAt_def Let_def split: if_splits)
    then have "m @ r = ?body @ ?after" by simp
    with split show ?thesis by simp
  qed
  from assms body show "m \<noteq> []"
    by (auto simp: matchAt_def Let_def split: if_splits)
  from assms show "\<not> isDelim (hd s)"
    using matchAt_None_iff [of s] by auto
  show "r \<noteq> [] \<Longrightarrow> \<not> isDelim (hd r)"
  proof -
    assume r: "r \<noteq> []"
    with assms body have "r = dropWhile isDelim ?after"
      by (auto simp: matchAt_def Let_def split: if_splits)
    with r show ?thesis by (metis hd_dropWhile)
  qed
qed

lemma concat_matchAll: "concat (matchAll s) = dropWhile isDelim s"
proof (induction s rule: matchAll.induct)
  case (1 s)
  show ?case
  proof (cases "s = []")
    case True
    then show ?thesis by (simp add: matchAll.simps)
  next
    case nonempty: False
    show ?thesis
    proof (cases "matchAt s")
      case None
      with nonempty have d: "isDelim (hd s)" by (simp add: matchAt_None_iff)
      from nonempty d have "dropWhile isDelim s = dropWhile isDelim (tl s)"
        by (cases s) auto
      moreover from None nonempty have "matchAll s = matchAll (tl s)"
        by (subst matchAll.simps) simp
      ultimately show ?thesis using "1.IH"(1) [OF nonempty None] by simp
    next
      case (Some mr)
      obtain m r where mr: "mr = (m, r)" by (cases mr)
      from Some mr have at: "matchAt s = Some (m, r)" by simp
      from at nonempty have all: "matchAll s = m # matchAll r"
        by (subst matchAll.simps) simp
      have ih: "concat (matchAll r) = dropWhile isDelim r"
        using "1.IH"(2) [OF nonempty at refl] .
      have "dropWhile isDelim r = r"
        using matchAt_Some_append(4) [OF at] by (cases r) auto
      moreover have "dropWhile isDelim s = s"
        using matchAt_Some_append(3) [OF at] nonempty by (cases s) auto
      ultimately show ?thesis
        using all ih matchAt_Some_append(1) [OF at] by simp
    qed
  qed
qed

lemma matchAll_Nil_iff: "matchAll s = [] \<longleftrightarrow> (\<forall>c \<in> set s. isDelim c)"
proof (induction s rule: matchAll.induct)
  case (1 s)
  show ?case
  proof (cases "s = []")
    case True
    then show ?thesis by (simp add: matchAll.simps)
  next
    case nonempty: False
    show ?thesis
    proof (cases "matchAt s")
      case None
      with nonempty have d: "isDelim (hd s)" by (simp add: matchAt_None_iff)
      from None nonempty have "matchAll s = matchAll (tl s)"
        by (subst matchAll.simps) simp
      with "1.IH"(1) [OF nonempty None] d nonempty show ?thesis
        by (cases s) auto
    next
      case (Some mr)
      obtain m r where mr: "mr = (m, r)" by (cases mr)
      from Some mr have at: "matchAt s = Some (m, r)" by simp
      from at nonempty have "matchAll s = m # matchAll r"
        by (subst matchAll.simps) simp
      moreover have "\<not> isDelim (hd s)" by (rule matchAt_Some_append(3) [OF at])
      ultimately show ?thesis using nonempty by (cases s) auto
    qed
  qed
qed

lemma matchAll_nonempty: "m \<in> set (matchAll s) \<Longrightarrow> m \<noteq> []"
proof (induction s rule: matchAll.induct)
  case (1 s)
  show ?case
  proof (cases "s = []")
    case True
    with "1.prems" show ?thesis by (simp add: matchAll.simps)
  next
    case nonempty: False
    show ?thesis
    proof (cases "matchAt s")
      case None
      from None nonempty have "matchAll s = matchAll (tl s)"
        by (subst matchAll.simps) simp
      with "1.IH"(1) [OF nonempty None] "1.prems" show ?thesis by simp
    next
      case (Some mr)
      obtain m' r where mr: "mr = (m', r)" by (cases mr)
      from Some mr have at: "matchAt s = Some (m', r)" by simp
      from at nonempty have "matchAll s = m' # matchAll r"
        by (subst matchAll.simps) simp
      with "1.prems" have "m = m' \<or> m \<in> set (matchAll r)" by auto
      then show ?thesis
        using matchAt_Some_append(2) [OF at] "1.IH"(2) [OF nonempty at refl] by auto
    qed
  qed
qed

lemma concat_sentences:
  "concat (sentences t) = (if \<forall>c \<in> set t. isDelim c then t else dropWhile isDelim t)"
proof (cases "matchAll t")
  case Nil
  then show ?thesis by (simp add: sentences_def matchAll_Nil_iff [symmetric])
next
  case (Cons m ms)
  then have "\<not> (\<forall>c \<in> set t. isDelim c)"
    using matchAll_Nil_iff [of t] by simp
  moreover from Cons have "concat (sentences t) = concat (matchAll t)"
    by (simp add: sentences_def)
  ultimately show ?thesis by (auto simp: concat_matchAll)
qed

subsection \<open>What the packing loop keeps\<close>

lemma packLoop_concat:
  "packLoop ss chunks t = (cs, t') \<Longrightarrow> concat cs @ t' = concat chunks @ t @ concat ss"
  by (induction ss arbitrary: chunks t) (auto split: if_splits)

lemma concat_makeChunks: "concat (makeChunks ss) = concat ss"
proof -
  obtain cs t' where p: "packLoop ss [] [] = (cs, t')" by (cases "packLoop ss [] []")
  from packLoop_concat [OF p] have "concat cs @ t' = concat ss" by simp
  with p show ?thesis by (auto simp: makeChunks_def)
qed

lemma concat_segment:
  "concat (segment t) = (if \<forall>c \<in> set t. isDelim c then t else dropWhile isDelim t)"
  by (simp only: segment_def concat_makeChunks concat_sentences)

lemma packLoop_chunks_bound:
  "packLoop ss chunks t = (cs, t') \<Longrightarrow> set ss \<subseteq> S \<Longrightarrow>
   \<forall>c \<in> set (t # chunks). length c \<le> 200 \<or> (c \<in> S \<and> 200 < length c) \<Longrightarrow>
   \<forall>c \<in> set (t' # cs). length c \<le> 200 \<or> (c \<in> S \<and> 200 < length c)"
proof (induction ss arbitrary: chunks t)
  case Nil
  then show ?case by simp
next
  case (Cons x rest)
  show ?case
  proof (cases "length t + length x > 200")
    case True
    with Cons.prems(1) have run: "packLoop rest (chunks @ [t]) x = (cs, t')" by simp
    from Cons.prems(2) have "x \<in> S" "set rest \<subseteq> S" by auto
    with Cons.prems(3)
    have "\<forall>c \<in> set (x # chunks @ [t]). length c \<le> 200 \<or> (c \<in> S \<and> 200 < length c)"
      by auto
    from Cons.IH [OF run \<open>set rest \<subseteq> S\<close> this] show ?thesis .
  next
    case False
    with Cons.prems(1) have run: "packLoop rest chunks (t @ x) = (cs, t')" by simp
    from Cons.prems(2) have "set rest \<subseteq> S" by auto
    from False Cons.prems(3)
    have "\<forall>c \<in> set ((t @ x) # chunks). length c \<le> 200 \<or> (c \<in> S \<and> 200 < length c)"
      by auto
    from Cons.IH [OF run \<open>set rest \<subseteq> S\<close> this] show ?thesis .
  qed
qed

lemma packLoop_keeps_long:
  "packLoop ss chunks t = (cs, t') \<Longrightarrow>
   set chunks \<subseteq> set cs \<and>
   (200 < length t \<longrightarrow> t \<in> set cs \<or> t = t') \<and>
   (\<forall>s \<in> set ss. 200 < length s \<longrightarrow> s \<in> set cs \<or> s = t')"
proof (induction ss arbitrary: chunks t)
  case Nil
  then show ?case by simp
next
  case (Cons x rest)
  show ?case
  proof (cases "length t + length x > 200")
    case True
    with Cons.prems have run: "packLoop rest (chunks @ [t]) x = (cs, t')" by simp
    from Cons.IH [OF run] show ?thesis by auto
  next
    case False
    with Cons.prems have run: "packLoop rest chunks (t @ x) = (cs, t')" by simp
    from Cons.IH [OF run] False show ?thesis by auto
  qed
qed

lemma makeChunks_bound:
  "c \<in> set (makeChunks ss) \<Longrightarrow> length c \<le> 200 \<or> (c \<in> set ss \<and> 200 < length c)"
proof -
  assume c: "c \<in> set (makeChunks ss)"
  obtain cs t' where p: "packLoop ss [] [] = (cs, t')" by (cases "packLoop ss [] []")
  have "\<forall>c \<in> set (t' # cs). length c \<le> 200 \<or> (c \<in> set ss \<and> 200 < length c)"
    by (rule packLoop_chunks_bound [OF p]) auto
  moreover from c p have "c \<in> set (t' # cs)"
    by (auto simp: makeChunks_def split: if_splits)
  ultimately show ?thesis by blast
qed

lemma makeChunks_keeps_long:
  "s \<in> set ss \<Longrightarrow> 200 < length s \<Longrightarrow> s \<in> set (makeChunks ss)"
proof -
  assume s: "s \<in> set ss" and long: "200 < length s"
  obtain cs t' where p: "packLoop ss [] [] = (cs, t')" by (cases "packLoop ss [] []")
  from packLoop_keeps_long [OF p] s long have "s \<in> set cs \<or> s = t'" by blast
  moreover from long have "s \<noteq> []" by auto
  ultimately show ?thesis using p by (auto simp: makeChunks_def)
qed

subsection \<open>A text with an overlong first sentence\<close>

lemma takeWhile_replicate_append:
  "P x \<Longrightarrow> takeWhile P (replicate n x @ ys) = replicate n x @ takeWhile P ys"
  by (induction n) auto

lemma dropWhile_replicate_append:
  "P x \<Longrightarrow> dropWhile P (replicate n x @ ys) = dropWhile P ys"
  by (induction n) auto

lemma sentences_long:
  "sentences (replicate 201 0x61 @ [0x2E, 0x62]) = [replicate 201 0x61 @ [0x2E], [0x62]]"
proof -
  have nd: "\<not> isDelim 0x61" "\<not> isDelim 0x62" "isDelim 0x2E" by (simp_all add: isDelim_def)
  have tw: "takeWhile (\<lambda>c. \<not> isDelim c) (replicate 201 0x61 @ [0x2E, 0x62]) = replicate 201 0x61"
    using nd by (simp add: takeWhile_replicate_append)
  have dw: "dropWhile (\<lambda>c. \<not> isDelim c) (replicate 201 0x61 @ [0x2E, 0x62]) = [0x2E, 0x62]"
    using nd by (simp add: dropWhile_replicate_append)
  have m1: "matchAt (replicate 201 0x61 @ [0x2E, 0x62]) = Some (replicate 201 0x61 @ [0x2E], [0x62])"
    unfolding matchAt_def tw dw using nd by simp
  have m2: "matchAt [0x62] = Some ([0x62], [])"
    using nd by (simp add: matchAt_def)
  have "matchAll (replicate 201 0x61 @ [0x2E, 0x62]) = (replicate 201 0x61 @ [0x2E]) # matchAll [0x62]"
    by (subst matchAll.simps) (simp add: m1)
  also have "matchAll [0x62] = [0x62] # matchAll []"
    by (subst matchAll.simps) (simp add: m2)
  also have "matchAll [] = []" by (simp add: matchAll.simps)
  finally show ?thesis by (simp add: sentences_def)
qed

lemma segment_dot_a: "segment [0x2E, 0x61] = [[0x61]]"
proof -
  have none: "matchAt [0x2E, 0x61] = None"
    by (simp add: matchAt_def isDelim_def)
  have some: "matchAt [0x61] = Some ([0x61], [])"
    by (simp add: matchAt_def isDelim_def)
  have "matchAll [0x2E, 0x61] = matchAll [0x61]"
    by (subst matchAll.simps) (simp add: none)
  also have "\<dots> = [0x61] # matchAll []"
    by (subst matchAll.simps) (simp add: some)
  also have "\<dots> = [[0x61]]"
    by (simp add: matchAll.simps)
  finally have "sentences [0x2E, 0x61] = [[0x61]]"
    by (simp add: sentences_def)
  then show ?thesis
    by (simp add: segment_def makeChunks_def)
qed

subsection \<open>Claims about the segmentation\<close>

text \<open>
  C1. The claim: concatenating the chunks of the cleaned text gives the cleaned text back.
  The code loses text: on the cleaned text \<^verbatim>\<open>".a"\<close> (code units 0x2E, 0x61) the regex finds
  no match at position 0, moves on, and matches \<^verbatim>\<open>"a"\<close>; the only chunk is \<^verbatim>\<open>"a"\<close>, and the
  leading full stop is gone. (\<open>concat_segment\<close> above says what is kept in general: all of
  the text behind its leading delimiters; \<open>dot_a_request\<close> below follows the message
  \<^verbatim>\<open>".a"\<close> through \<^verbatim>\<open>handleSpeak\<close> to the request for \<^verbatim>\<open>"a"\<close>.)
\<close>

theorem segment_drops_leading_delimiter:
  "segment [0x2E, 0x61] = [[0x61]] \<and> concat (segment [0x2E, 0x61]) \<noteq> [0x2E, 0x61]"
  by (simp add: segment_dot_a)

text \<open>
  C7. Every chunk of the greedy packing is at most 200 code units long, or it is one of the
  sentences, on its own, and that sentence is longer than 200; and every sentence longer
  than 200 is a chunk as it is (it is neither split nor merged with a neighbour).
\<close>

theorem chunk_length_bound:
  "(\<forall>c \<in> set (segment t). length c \<le> 200 \<or> (c \<in> set (sentences t) \<and> 200 < length c)) \<and>
   (\<forall>s \<in> set (sentences t). 200 < length s \<longrightarrow> s \<in> set (segment t))"
  unfolding segment_def using makeChunks_bound makeChunks_keeps_long by blast

theorem chunk_length_bound_witness:
  "replicate 201 0x61 @ [0x2E] \<in> set (sentences (replicate 201 0x61 @ [0x2E, 0x62])) \<and>
   200 < length (replicate 201 (0x61 :: 16 word) @ [0x2E]) \<and>
   replicate 201 0x61 @ [0x2E] \<in> set (segment (replicate 201 0x61 @ [0x2E, 0x62])) \<and>
   [0x62] \<in> set (segment (replicate 201 0x61 @ [0x2E, 0x62])) \<and>
   length ([0x62] :: js_string) \<le> 200"
proof -
  have seg: "segment (replicate 201 0x61 @ [0x2E, 0x62]) = [[], replicate 201 0x61 @ [0x2E], [0x62]]"
    by (simp add: segment_def sentences_long makeChunks_def)
  from chunk_length_bound [of "replicate 201 0x61 @ [0x2E, 0x62]"]
  show ?thesis by (simp add: sentences_long seg)
qed

subsection \<open>Scheduling keeps the timeline gapless\<close>

lemma scheduleChunk_None:
  "scheduleChunk fl atob now b s = (None, s') \<Longrightarrow>
   nextStartTimeRef s' = nextStartTimeRef s \<and> sourcesRef s' = sourcesRef s \<and>
   nodesMade s' = nodesMade s \<and> audioContextRef s' = audioContextRef s"
  by (auto simp: scheduleChunk_def Let_def split: if_splits sum.splits)

lemma scheduleChunk_Some:
  "scheduleChunk fl atob now b s = (Some src, s') \<Longrightarrow>
   startedAt src = max now (nextStartTimeRef s) \<and>
   nextStartTimeRef s' = fl (startedAt src + duration fl src) \<and>
   sourcesRef s' = sourcesRef s @ [src] \<and> samples src \<noteq> []"
  by (auto simp: scheduleChunk_def decodePCM_def Let_def split: if_splits sum.splits option.splits)

lemma scheduleAll_gaplessFrom:
  "scheduleAll fl atob calls s = (out, s') \<Longrightarrow>
   gaplessFrom fl (nextStartTimeRef s) out \<and> nextStartTimeRef s' = cursorAfter fl (nextStartTimeRef s) out"
proof (induction calls arbitrary: s out s')
  case Nil
  then show ?case by simp
next
  case (Cons call calls)
  obtain now b where call: "call = (now, b)" by (cases call)
  obtain r s1 where step: "scheduleChunk fl atob now b s = (r, s1)" by (cases "scheduleChunk fl atob now b s")
  show ?case
  proof (cases r)
    case None
    with Cons.prems call step have "scheduleAll fl atob calls s1 = (out, s')" by simp
    from Cons.IH [OF this] scheduleChunk_None [OF step [unfolded None]] show ?thesis by simp
  next
    case (Some src)
    obtain out1 s2 where rest: "scheduleAll fl atob calls s1 = (out1, s2)" by (cases "scheduleAll fl atob calls s1")
    with Cons.prems call step Some have out: "out = (now, src) # out1" "s' = s2" by auto
    from Cons.IH [OF rest] scheduleChunk_Some [OF step [unfolded Some]] out show ?thesis by simp
  qed
qed

lemma gaplessFrom_nth:
  "gaplessFrom fl c out \<Longrightarrow> i < length out \<Longrightarrow>
   startedAt (snd (out ! i)) = max (fst (out ! i)) (cursorBefore fl c out i)"
proof (induction out arbitrary: c i)
  case Nil
  then show ?case by simp
next
  case (Cons x out)
  obtain now src where x: "x = (now, src)" by (cases x)
  show ?case
  proof (cases i)
    case 0
    with Cons.prems x show ?thesis by (simp add: cursorBefore_def)
  next
    case (Suc j)
    with Cons.prems x have "gaplessFrom fl (fl (startedAt src + duration fl src)) out" "j < length out" by auto
    from Cons.IH [OF this] have "startedAt (snd (out ! j)) = max (fst (out ! j)) (cursorBefore fl (fl (startedAt src + duration fl src)) out j)" .
    moreover have "cursorBefore fl c (x # out) (Suc j) = cursorBefore fl (fl (startedAt src + duration fl src)) out j"
      using x by (cases j) (auto simp: cursorBefore_def)
    ultimately show ?thesis using Suc by simp
  qed
qed

lemma cursorAfter_last:
  "cursorAfter fl c out = cursorBefore fl c out (length out)"
proof (induction out arbitrary: c)
  case Nil
  then show ?case by (simp add: cursorBefore_def)
next
  case (Cons x out)
  obtain now src where x: "x = (now, src)" by (cases x)
  have "cursorBefore fl c (x # out) (length (x # out)) = cursorBefore fl (fl (startedAt src + duration fl src)) out (length out)"
    using x by (cases out) (auto simp: cursorBefore_def)
  with Cons.IH [of "fl (startedAt src + duration fl src)"] x show ?case by simp
qed

lemma decodePCM_sample:
  "decodePCM atobSample [0x41, 0x41, 0x41, 0x3D] = Inr [0]"
  "decodePCM atobSample [0x21] = Inl InvalidCharacterError"
  by (simp_all add: decodePCM_def atobSample_def)

lemma scheduleChunk_console:
  "a\<lparr>console := []\<rparr> = b\<lparr>console := []\<rparr> \<Longrightarrow>
   fst (scheduleChunk fl atob now p a) = fst (scheduleChunk fl atob now p b) \<and>
   (snd (scheduleChunk fl atob now p a))\<lparr>console := []\<rparr> = (snd (scheduleChunk fl atob now p b))\<lparr>console := []\<rparr>"
  by (cases a, cases b) (auto simp: scheduleChunk_def Let_def split: sum.splits)

lemma scheduleAll_console:
  "a\<lparr>console := []\<rparr> = b\<lparr>console := []\<rparr> \<Longrightarrow>
   fst (scheduleAll fl atob calls a) = fst (scheduleAll fl atob calls b) \<and>
   (snd (scheduleAll fl atob calls a))\<lparr>console := []\<rparr> = (snd (scheduleAll fl atob calls b))\<lparr>console := []\<rparr>"
proof (induction calls arbitrary: a b)
  case Nil
  then show ?case by simp
next
  case (Cons call calls)
  obtain now p where call: "call = (now, p)" by (cases call)
  obtain ra a1 where sa: "scheduleChunk fl atob now p a = (ra, a1)" by (cases "scheduleChunk fl atob now p a")
  obtain rb b1 where sb: "scheduleChunk fl atob now p b = (rb, b1)" by (cases "scheduleChunk fl atob now p b")
  from scheduleChunk_console [OF Cons.prems, of fl atob now p] sa sb
  have r: "ra = rb" and s1: "a1\<lparr>console := []\<rparr> = b1\<lparr>console := []\<rparr>" by auto
  from Cons.IH [OF s1] r call sa sb show ?case
    by (auto split: option.splits prod.splits)
qed

text \<open>
  C2. In a run of \<^verbatim>\<open>scheduleChunk\<close> calls (no \<^verbatim>\<open>stopAudio\<close> in between; calls that fail
  to decode may be mixed in), every scheduled node starts at the larger of the audio clock
  at its call and the cursor \<^verbatim>\<open>nextStartTimeRef\<close> it found. So it starts not before the
  audio clock, and not before the previous node's start plus duration, that sum being the
  double the code computes for it and stores in the cursor; and the cursor ends at that sum
  for the last node. This holds whatever the rounding \<open>fl\<close> is.
\<close>

theorem gapless_scheduling:
  assumes "scheduleAll fl atob calls s = (out, s')"
  shows "(\<forall>i < length out.
            startedAt (snd (out ! i)) = max (fst (out ! i)) (cursorBefore fl (nextStartTimeRef s) out i) \<and>
            fst (out ! i) \<le> startedAt (snd (out ! i)) \<and>
            (0 < i \<longrightarrow>
               fl (startedAt (snd (out ! (i - 1))) + duration fl (snd (out ! (i - 1))))
                 \<le> startedAt (snd (out ! i)))) \<and>
         nextStartTimeRef s' = cursorBefore fl (nextStartTimeRef s) out (length out)"
proof -
  from scheduleAll_gaplessFrom [OF assms]
  have g: "gaplessFrom fl (nextStartTimeRef s) out"
    and e: "nextStartTimeRef s' = cursorAfter fl (nextStartTimeRef s) out" by auto
  have "startedAt (snd (out ! i)) = max (fst (out ! i)) (cursorBefore fl (nextStartTimeRef s) out i) \<and>
        fst (out ! i) \<le> startedAt (snd (out ! i)) \<and>
        (0 < i \<longrightarrow>
           fl (startedAt (snd (out ! (i - 1))) + duration fl (snd (out ! (i - 1))))
             \<le> startedAt (snd (out ! i)))" if "i < length out" for i
  proof -
    from gaplessFrom_nth [OF g that]
    have eq: "startedAt (snd (out ! i)) = max (fst (out ! i)) (cursorBefore fl (nextStartTimeRef s) out i)" .
    then show ?thesis by (auto simp: cursorBefore_def)
  qed
  then have "\<forall>i < length out.
            startedAt (snd (out ! i)) = max (fst (out ! i)) (cursorBefore fl (nextStartTimeRef s) out i) \<and>
            fst (out ! i) \<le> startedAt (snd (out ! i)) \<and>
            (0 < i \<longrightarrow>
               fl (startedAt (snd (out ! (i - 1))) + duration fl (snd (out ! (i - 1))))
                 \<le> startedAt (snd (out ! i)))"
    by blast
  moreover from e have "nextStartTimeRef s' = cursorBefore fl (nextStartTimeRef s) out (length out)"
    by (simp only: cursorAfter_last)
  ultimately show ?thesis by (rule conjI)
qed

text \<open>
  The witness takes the identity for the rounding: three calls at clock 1, the second with
  a payload that is not base64. Two nodes are scheduled, and the second starts at the sum
  computed for the first.
\<close>

theorem gapless_scheduling_witness:
  "length (fst (scheduleAll (\<lambda>x. x) atobSample
       [(1, [0x41, 0x41, 0x41, 0x3D]), (1, [0x21]), (1, [0x41, 0x41, 0x41, 0x3D])]
       (idle\<lparr>audioContextRef := True\<rparr>))) = 2 \<and>
   startedAt (snd (fst (scheduleAll (\<lambda>x. x) atobSample
       [(1, [0x41, 0x41, 0x41, 0x3D]), (1, [0x21]), (1, [0x41, 0x41, 0x41, 0x3D])]
       (idle\<lparr>audioContextRef := True\<rparr>)) ! 0)) +
   duration (\<lambda>x. x) (snd (fst (scheduleAll (\<lambda>x. x) atobSample
       [(1, [0x41, 0x41, 0x41, 0x3D]), (1, [0x21]), (1, [0x41, 0x41, 0x41, 0x3D])]
       (idle\<lparr>audioContextRef := True\<rparr>)) ! 0))
   \<le> startedAt (snd (fst (scheduleAll (\<lambda>x. x) atobSample
       [(1, [0x41, 0x41, 0x41, 0x3D]), (1, [0x21]), (1, [0x41, 0x41, 0x41, 0x3D])]
       (idle\<lparr>audioContextRef := True\<rparr>)) ! 1))"
proof -
  let ?run = "scheduleAll (\<lambda>x. x) atobSample
       [(1, [0x41, 0x41, 0x41, 0x3D]), (1, [0x21]), (1, [0x41, 0x41, 0x41, 0x3D])]
       (idle\<lparr>audioContextRef := True\<rparr>)"
  have len: "length (fst ?run) = 2"
    by (simp add: scheduleChunk_def decodePCM_sample idle_def Let_def)
  then have one: "1 < length (fst ?run)" by (simp only:)
  have "?run = (fst ?run, snd ?run)" by simp
  from gapless_scheduling [OF this, THEN conjunct1, rule_format, OF one, THEN conjunct2, THEN conjunct2]
  have "0 < (1::nat) \<longrightarrow>
        startedAt (snd (fst ?run ! (1 - 1))) + duration (\<lambda>x. x) (snd (fst ?run ! (1 - 1)))
          \<le> startedAt (snd (fst ?run ! 1))" .
  then have "startedAt (snd (fst ?run ! (1 - 1))) + duration (\<lambda>x. x) (snd (fst ?run ! (1 - 1)))
          \<le> startedAt (snd (fst ?run ! 1))"
    by (rule mp) (rule zero_less_one)
  then have "startedAt (snd (fst ?run ! 0)) + duration (\<lambda>x. x) (snd (fst ?run ! 0))
          \<le> startedAt (snd (fst ?run ! 1))"
    by (simp only: diff_self_eq_0)
  with len show ?thesis by (rule conjI)
qed

text \<open>
  C8. When decoding throws, \<^verbatim>\<open>scheduleChunk\<close> logs the error and returns \<^verbatim>\<open>null\<close>; the cursor
  and the active nodes are as before, and any later run of calls schedules the same nodes
  at the same times and ends in the same state (the console apart) as if the bad payload
  had not come.
\<close>

theorem decode_failure_isolated:
  assumes "audioContextRef s" and "decodePCM atob bad = Inl err"
  shows "scheduleChunk fl atob now bad s = (None, s\<lparr>console := console s @ [err]\<rparr>) \<and>
         nextStartTimeRef (snd (scheduleChunk fl atob now bad s)) = nextStartTimeRef s \<and>
         sourcesRef (snd (scheduleChunk fl atob now bad s)) = sourcesRef s \<and>
         fst (scheduleAll fl atob later (snd (scheduleChunk fl atob now bad s))) = fst (scheduleAll fl atob later s) \<and>
         (snd (scheduleAll fl atob later (snd (scheduleChunk fl atob now bad s))))\<lparr>console := []\<rparr> =
           (snd (scheduleAll fl atob later s))\<lparr>console := []\<rparr>"
proof -
  from assms have step: "scheduleChunk fl atob now bad s = (None, s\<lparr>console := console s @ [err]\<rparr>)"
    by (simp add: scheduleChunk_def)
  have "(s\<lparr>console := console s @ [err]\<rparr>)\<lparr>console := []\<rparr> = s\<lparr>console := []\<rparr>" by simp
  from scheduleAll_console [OF this, of fl atob later] step show ?thesis by simp
qed

theorem decode_failure_isolated_witness:
  "audioContextRef (idle\<lparr>audioContextRef := True\<rparr>) \<and>
   decodePCM atobSample [0x21] = Inl InvalidCharacterError \<and>
   fst (scheduleChunk (\<lambda>x. x) atobSample 1 [0x21] (idle\<lparr>audioContextRef := True\<rparr>)) = None \<and>
   fst (scheduleAll (\<lambda>x. x) atobSample [(2, [0x41, 0x41, 0x41, 0x3D])]
         (snd (scheduleChunk (\<lambda>x. x) atobSample 1 [0x21] (idle\<lparr>audioContextRef := True\<rparr>)))) =
     [(2, \<lparr>node = 0, samples = [0], startedAt = 2\<rparr>)]"
proof -
  let ?s = "idle\<lparr>audioContextRef := True\<rparr>"
  let ?later = "[(2, [0x41, 0x41, 0x41, 0x3D])] :: (real \<times> js_string) list"
  have ctx: "audioContextRef ?s" by simp
  have good: "fst (scheduleAll (\<lambda>x. x) atobSample ?later ?s) = [(2, \<lparr>node = 0, samples = [0], startedAt = 2\<rparr>)]"
    by (simp add: scheduleChunk_def decodePCM_sample idle_def Let_def)
  note t = decode_failure_isolated [OF ctx decodePCM_sample(2), of "\<lambda>x. x" 1 ?later]
  from t have "scheduleChunk (\<lambda>x. x) atobSample 1 [0x21] ?s = (None, ?s\<lparr>console := console ?s @ [InvalidCharacterError]\<rparr>)"
    by (rule conjunct1)
  then have none: "fst (scheduleChunk (\<lambda>x. x) atobSample 1 [0x21] ?s) = None"
    by (simp only: fst_conv)
  from t have "fst (scheduleAll (\<lambda>x. x) atobSample ?later (snd (scheduleChunk (\<lambda>x. x) atobSample 1 [0x21] ?s))) =
               fst (scheduleAll (\<lambda>x. x) atobSample ?later ?s)"
    by blast
  with good have same: "fst (scheduleAll (\<lambda>x. x) atobSample ?later (snd (scheduleChunk (\<lambda>x. x) atobSample 1 [0x21] ?s))) =
               [(2, \<lparr>node = 0, samples = [0], startedAt = 2\<rparr>)]"
    by (rule trans [rotated])
  from ctx decodePCM_sample(2) none same show ?thesis by blast
qed

subsection \<open>The shape of a run of attempts\<close>

lemma streamSpeech_cases [case_names Ok Retry NoCredential Ceiling]:
  obtains
    (Ok) ds where
      "speechAttempt service cb utterance n p = (ds, None)"
      "streamSpeech service cb utterance n p =
         \<lparr>settled = Inr (), heard = ds, heardLater = [],
          attempts = [(utterance, n, False)], rotations = [], poolAfter = p\<rparr>"
  | (Retry) ds e p' where
      "speechAttempt service cb utterance n p = (ds, Some e)" "n < 3"
      "rotateApiKey p = (True, p')"
      "streamSpeech service cb utterance n p =
         \<lparr>settled = Inr (), heard = ds,
          heardLater = heard (streamSpeech service cb utterance (n + 1) p') @
                       heardLater (streamSpeech service cb utterance (n + 1) p'),
          attempts = (utterance, n, True) # attempts (streamSpeech service cb utterance (n + 1) p'),
          rotations = True # rotations (streamSpeech service cb utterance (n + 1) p'),
          poolAfter = poolAfter (streamSpeech service cb utterance (n + 1) p')\<rparr>"
  | (NoCredential) ds e p' where
      "speechAttempt service cb utterance n p = (ds, Some e)" "n < 3"
      "rotateApiKey p = (False, p')"
      "streamSpeech service cb utterance n p =
         \<lparr>settled = Inr (), heard = ds, heardLater = [],
          attempts = [(utterance, n, True)], rotations = [False], poolAfter = p'\<rparr>"
  | (Ceiling) ds e where
      "speechAttempt service cb utterance n p = (ds, Some e)" "\<not> n < 3"
      "streamSpeech service cb utterance n p =
         \<lparr>settled = Inr (), heard = ds, heardLater = [],
          attempts = [(utterance, n, True)], rotations = [], poolAfter = p\<rparr>"
proof -
  obtain ds r where a: "speechAttempt service cb utterance n p = (ds, r)"
    by (cases "speechAttempt service cb utterance n p")
  obtain b p' where rot: "rotateApiKey p = (b, p')" by (cases "rotateApiKey p")
  show thesis
  proof (cases r)
    case None
    with a show thesis by (intro Ok [of ds]) (simp_all add: streamSpeech.simps [of service cb utterance n p])
  next
    case (Some e)
    show thesis
    proof (cases "n < 3")
      case False
      with a Some show thesis
        by (intro Ceiling [of ds e]) (simp_all add: streamSpeech.simps [of service cb utterance n p])
    next
      case True
      show thesis
      proof (cases b)
        case True
        with a Some \<open>n < 3\<close> rot show thesis
          by (intro Retry [of ds e p'])
             (simp_all add: streamSpeech.simps [of service cb utterance n p] Let_def)
      next
        case False
        with a Some \<open>n < 3\<close> rot show thesis
          by (intro NoCredential [of ds e p'])
             (simp_all add: streamSpeech.simps [of service cb utterance n p])
      qed
    qed
  qed
qed

lemma streamSpeech_settled: "settled (streamSpeech service cb utterance n p) = Inr ()"
  by (cases service cb utterance n p rule: streamSpeech_cases) simp_all

lemma streamSpeech_attempts_nonempty: "attempts (streamSpeech service cb utterance n p) \<noteq> []"
  by (cases service cb utterance n p rule: streamSpeech_cases) simp_all

lemma streamSpeech_count:
  "n + length (attempts (streamSpeech service cb utterance n p)) \<le> max 4 (n + 1)"
proof (induction service cb utterance n p rule: streamSpeech.induct)
  case (1 service cb utterance n p)
  show ?case
  proof (cases service cb utterance n p rule: streamSpeech_cases)
    case (Retry ds e p')
    from "1.IH" [OF Retry(1) [symmetric] refl Retry(2) Retry(3) [symmetric] refl] Retry(2)
    show ?thesis by (simp add: Retry(4))
  qed simp_all
qed

lemma generateStreamResponse_cases [case_names Ok Retry NoCredential Ceiling]:
  obtains
    (Ok) sh fullText where
      "chatAttempt chat onChunk n p = (sh, Inr fullText)"
      "generateStreamResponse chat onChunk n p =
         \<lparr>outcome = Inr fullText, shown = sh, tries = [(n, False)], rotated = [], poolLeft = p\<rparr>"
  | (Retry) sh e p' where
      "chatAttempt chat onChunk n p = (sh, Inl e)" "n < 4"
      "rotateApiKey p = (True, p')"
      "generateStreamResponse chat onChunk n p =
         \<lparr>outcome = outcome (generateStreamResponse chat onChunk (n + 1) p'),
          shown = sh @ shown (generateStreamResponse chat onChunk (n + 1) p'),
          tries = (n, True) # tries (generateStreamResponse chat onChunk (n + 1) p'),
          rotated = True # rotated (generateStreamResponse chat onChunk (n + 1) p'),
          poolLeft = poolLeft (generateStreamResponse chat onChunk (n + 1) p')\<rparr>"
  | (NoCredential) sh e p' where
      "chatAttempt chat onChunk n p = (sh, Inl e)" "n < 4"
      "rotateApiKey p = (False, p')"
      "generateStreamResponse chat onChunk n p =
         \<lparr>outcome = Inr apology, shown = sh, tries = [(n, True)], rotated = [False], poolLeft = p'\<rparr>"
  | (Ceiling) sh e where
      "chatAttempt chat onChunk n p = (sh, Inl e)" "\<not> n < 4"
      "generateStreamResponse chat onChunk n p =
         \<lparr>outcome = Inr apology, shown = sh, tries = [(n, True)], rotated = [], poolLeft = p\<rparr>"
proof -
  obtain sh r where a: "chatAttempt chat onChunk n p = (sh, r)"
    by (cases "chatAttempt chat onChunk n p")
  obtain b p' where rot: "rotateApiKey p = (b, p')" by (cases "rotateApiKey p")
  show thesis
  proof (cases r)
    case (Inr fullText)
    with a show thesis
      by (intro Ok [of sh fullText]) (simp_all add: generateStreamResponse.simps [of chat onChunk n p])
  next
    case (Inl e)
    show thesis
    proof (cases "n < 4")
      case False
      with a Inl show thesis
        by (intro Ceiling [of sh e]) (simp_all add: generateStreamResponse.simps [of chat onChunk n p])
    next
      case True
      show thesis
      proof (cases b)
        case True
        with a Inl \<open>n < 4\<close> rot show thesis
          by (intro Retry [of sh e p'])
             (simp_all add: generateStreamResponse.simps [of chat onChunk n p] Let_def)
      next
        case False
        with a Inl \<open>n < 4\<close> rot show thesis
          by (intro NoCredential [of sh e p'])
             (simp_all add: generateStreamResponse.simps [of chat onChunk n p])
      qed
    qed
  qed
qed

lemma generateStreamResponse_tries_nonempty: "tries (generateStreamResponse chat onChunk n p) \<noteq> []"
  by (cases chat onChunk n p rule: generateStreamResponse_cases) simp_all

lemma generateStreamResponse_resolves:
  "\<exists>answer. outcome (generateStreamResponse chat onChunk n p) = Inr answer"
proof (induction chat onChunk n p rule: generateStreamResponse.induct)
  case (1 chat onChunk n p)
  show ?case
  proof (cases chat onChunk n p rule: generateStreamResponse_cases)
    case (Retry sh e p')
    from "1.IH" [OF Retry(1) [symmetric] refl Retry(2) Retry(3) [symmetric] refl]
    show ?thesis by (simp add: Retry(4))
  qed simp_all
qed

lemma generateStreamResponse_apology:
  "snd (last (tries (generateStreamResponse chat onChunk n p))) \<Longrightarrow>
   outcome (generateStreamResponse chat onChunk n p) = Inr apology"
proof (induction chat onChunk n p rule: generateStreamResponse.induct)
  case (1 chat onChunk n p)
  show ?case
  proof (cases chat onChunk n p rule: generateStreamResponse_cases)
    case (Retry sh e p')
    with "1.prems" have "snd (last (tries (generateStreamResponse chat onChunk (n + 1) p')))"
      by (simp add: generateStreamResponse_tries_nonempty)
    from "1.IH" [OF Retry(1) [symmetric] refl Retry(2) Retry(3) [symmetric] refl this]
    show ?thesis by (simp add: Retry(4))
  next
    case (Ok sh fullText)
    with "1.prems" show ?thesis by simp
  qed simp_all
qed

lemma generateStreamResponse_count:
  "n + length (tries (generateStreamResponse chat onChunk n p)) \<le> max 5 (n + 1)"
proof (induction chat onChunk n p rule: generateStreamResponse.induct)
  case (1 chat onChunk n p)
  show ?case
  proof (cases chat onChunk n p rule: generateStreamResponse_cases)
    case (Retry sh e p')
    from "1.IH" [OF Retry(1) [symmetric] refl Retry(2) Retry(3) [symmetric] refl] Retry(2)
    show ?thesis by (simp add: Retry(4))
  qed simp_all
qed

lemma map_upt_shift: "map f [0 ..< Suc n] = f 0 # map (\<lambda>j. f (Suc j)) [0 ..< n]"
  by (simp only: map_upt_Suc)

lemma streamSpeech_attempts_real:
  "attempts (streamSpeech service cb utterance n q) =
   map (\<lambda>j. (utterance, n + j, snd (speechAttempt service cb utterance (n + j) (poolAt j q)) \<noteq> None))
     [0 ..< length (attempts (streamSpeech service cb utterance n q))]"
proof (induction service cb utterance n q rule: streamSpeech.induct)
  case (1 service cb utterance n q)
  show ?case
  proof (cases service cb utterance n q rule: streamSpeech_cases)
    case (Retry ds e p')
    let ?r = "streamSpeech service cb utterance (n + 1) p'"
    from Retry(3) have p': "p' = snd (rotateApiKey q)" by simp
    have ih: "attempts ?r =
      map (\<lambda>j. (utterance, n + 1 + j, snd (speechAttempt service cb utterance (n + 1 + j) (poolAt j p')) \<noteq> None))
        [0 ..< length (attempts ?r)]"
      using "1.IH" [OF Retry(1) [symmetric] refl Retry(2) Retry(3) [symmetric] refl] .
    have len: "length (attempts (streamSpeech service cb utterance n q)) = Suc (length (attempts ?r))"
      by (simp add: Retry(4))
    have "attempts (streamSpeech service cb utterance n q) = (utterance, n, True) # attempts ?r"
      by (simp add: Retry(4))
    also have "attempts ?r =
      map (\<lambda>j. (utterance, n + Suc j, snd (speechAttempt service cb utterance (n + Suc j) (poolAt (Suc j) q)) \<noteq> None))
        [0 ..< length (attempts ?r)]"
      by (subst ih) (simp add: p')
    finally show ?thesis
      unfolding len by (subst map_upt_shift) (simp add: Retry(1))
  qed (simp_all)
qed

lemma streamSpeech_retry_only_if:
  "Suc j < length (attempts (streamSpeech service cb utterance n q)) \<Longrightarrow>
   snd (speechAttempt service cb utterance (n + j) (poolAt j q)) \<noteq> None \<and>
   fst (rotateApiKey (poolAt j q)) \<and> n + j < 3"
proof (induction service cb utterance n q arbitrary: j rule: streamSpeech.induct)
  case (1 service cb utterance n q)
  show ?case
  proof (cases service cb utterance n q rule: streamSpeech_cases)
    case (Retry ds e p')
    let ?r = "streamSpeech service cb utterance (n + 1) p'"
    from Retry(3) have p': "p' = snd (rotateApiKey q)" by simp
    show ?thesis
    proof (cases j)
      case 0
      with Retry show ?thesis by simp
    next
      case (Suc i)
      with "1.prems" Retry(4) have "Suc i < length (attempts ?r)" by simp
      from "1.IH" [OF Retry(1) [symmetric] refl Retry(2) Retry(3) [symmetric] refl this]
      show ?thesis by (simp add: Suc p')
    qed
  next
    case (Ok ds)
    with "1.prems" show ?thesis by simp
  next
    case (NoCredential ds e p')
    with "1.prems" show ?thesis by simp
  next
    case (Ceiling ds e)
    with "1.prems" show ?thesis by simp
  qed
qed

lemma streamSpeech_retry_if:
  "j < length (attempts (streamSpeech service cb utterance n q)) \<Longrightarrow>
   snd (speechAttempt service cb utterance (n + j) (poolAt j q)) \<noteq> None \<Longrightarrow>
   fst (rotateApiKey (poolAt j q)) \<Longrightarrow> n + j < 3 \<Longrightarrow>
   Suc j < length (attempts (streamSpeech service cb utterance n q))"
proof (induction service cb utterance n q arbitrary: j rule: streamSpeech.induct)
  case (1 service cb utterance n q)
  show ?case
  proof (cases service cb utterance n q rule: streamSpeech_cases)
    case (Retry ds e p')
    let ?r = "streamSpeech service cb utterance (n + 1) p'"
    from Retry(3) have p': "p' = snd (rotateApiKey q)" by simp
    show ?thesis
    proof (cases j)
      case 0
      then show ?thesis by (simp add: Retry(4) streamSpeech_attempts_nonempty)
    next
      case (Suc i)
      with "1.prems"(1) Retry(4) have a: "i < length (attempts ?r)" by simp
      from "1.prems"(2-4) Suc have b:
        "snd (speechAttempt service cb utterance (n + 1 + i) (poolAt i p')) \<noteq> None"
        "fst (rotateApiKey (poolAt i p'))" "n + 1 + i < 3"
        by (simp_all add: p')
      from "1.IH" [OF Retry(1) [symmetric] refl Retry(2) Retry(3) [symmetric] refl a b]
      show ?thesis by (simp add: Suc Retry(4))
    qed
  next
    case (Ok ds)
    with "1.prems" show ?thesis by simp
  next
    case (NoCredential ds e p')
    with "1.prems" show ?thesis by simp
  next
    case (Ceiling ds e)
    with "1.prems" show ?thesis by simp
  qed
qed

lemma streamSpeech_heard:
  "heard (streamSpeech service cb utterance n q) = fst (speechAttempt service cb utterance n q) \<and>
   heardLater (streamSpeech service cb utterance n q) =
     concat (map (\<lambda>j. fst (speechAttempt service cb utterance (n + j) (poolAt j q)))
       [1 ..< length (attempts (streamSpeech service cb utterance n q))])"
proof (induction service cb utterance n q rule: streamSpeech.induct)
  case (1 service cb utterance n q)
  show ?case
  proof (cases service cb utterance n q rule: streamSpeech_cases)
    case (Retry ds e p')
    define r where "r = streamSpeech service cb utterance (n + 1) p'"
    define g where "g = (\<lambda>j. fst (speechAttempt service cb utterance (n + j) (poolAt j q)))"
    from Retry(3) have p': "p' = snd (rotateApiKey q)" by simp
    have shift: "fst (speechAttempt service cb utterance (n + 1 + j) (poolAt j p')) = g (Suc j)" for j
      by (simp add: g_def p')
    from "1.IH" [OF Retry(1) [symmetric] refl Retry(2) Retry(3) [symmetric] refl]
    have ih: "heard r = g (Suc 0)"
      "heardLater r = concat (map (\<lambda>j. g (Suc j)) [1 ..< length (attempts r)])"
      unfolding r_def [symmetric] by (simp_all add: g_def p')
    have "attempts r \<noteq> []" unfolding r_def by (rule streamSpeech_attempts_nonempty)
    then obtain m where m: "length (attempts r) = Suc m" by (cases "attempts r") auto
    have "map (\<lambda>j. g (Suc j)) [1 ..< Suc m] = map g (map Suc [1 ..< Suc m])"
      by (simp add: comp_def)
    also have "map Suc [1 ..< Suc m] = [2 ..< Suc (Suc m)]"
      by (simp only: map_Suc_upt) (simp add: numeral_2_eq_2)
    finally have later: "heardLater r = concat (map g [2 ..< Suc (Suc m)])"
      using ih(2) m by simp
    have "[1 ..< Suc (Suc m)] = 1 # [2 ..< Suc (Suc m)]"
      by (simp add: upt_conv_Cons numeral_2_eq_2)
    then have "concat (map g [1 ..< Suc (Suc m)]) = heard r @ heardLater r"
      using ih(1) later by simp
    moreover have "length (attempts (streamSpeech service cb utterance n q)) = Suc (Suc m)"
      using m by (simp add: Retry(4) r_def)
    moreover have "heardLater (streamSpeech service cb utterance n q) = heard r @ heardLater r"
      "heard (streamSpeech service cb utterance n q) = ds"
      by (simp_all add: Retry(4) r_def)
    ultimately show ?thesis by (simp add: g_def Retry(1))
  qed simp_all
qed


lemma streamSpeech_retry_iff:
  assumes "j < length (attempts (streamSpeech service cb utterance n q))"
  shows "Suc j < length (attempts (streamSpeech service cb utterance n q)) \<longleftrightarrow>
         snd (speechAttempt service cb utterance (n + j) (poolAt j q)) \<noteq> None \<and> n + j < 3 \<and>
         fst (rotateApiKey (poolAt j q))"
  using streamSpeech_retry_only_if [of j service cb utterance n q]
    streamSpeech_retry_if [OF assms] by blast

lemma streamSpeech_rotation_iff:
  "j < length (attempts (streamSpeech service cb utterance n q)) \<Longrightarrow>
   j < length (rotations (streamSpeech service cb utterance n q)) \<longleftrightarrow>
   snd (speechAttempt service cb utterance (n + j) (poolAt j q)) \<noteq> None \<and> n + j < 3"
proof (induction service cb utterance n q arbitrary: j rule: streamSpeech.induct)
  case (1 service cb utterance n q)
  show ?case
  proof (cases service cb utterance n q rule: streamSpeech_cases)
    case (Retry ds e p')
    let ?r = "streamSpeech service cb utterance (n + 1) p'"
    from Retry(3) have p': "p' = snd (rotateApiKey q)" by simp
    show ?thesis
    proof (cases j)
      case 0
      with Retry show ?thesis by simp
    next
      case (Suc i)
      with "1.prems" Retry(4) have "i < length (attempts ?r)" by simp
      from "1.IH" [OF Retry(1) [symmetric] refl Retry(2) Retry(3) [symmetric] refl this]
      show ?thesis by (simp add: Suc Retry(4) p')
    qed
  next
    case (Ok ds)
    with "1.prems" show ?thesis by simp
  next
    case (NoCredential ds e p')
    with "1.prems" show ?thesis by simp
  next
    case (Ceiling ds e)
    with "1.prems" show ?thesis by simp
  qed
qed

lemma streamSpeech_rotations_real:
  "rotations (streamSpeech service cb utterance n q) =
   map (\<lambda>j. fst (rotateApiKey (poolAt j q)))
     [0 ..< length (rotations (streamSpeech service cb utterance n q))]"
proof (induction service cb utterance n q rule: streamSpeech.induct)
  case (1 service cb utterance n q)
  show ?case
  proof (cases service cb utterance n q rule: streamSpeech_cases)
    case (Retry ds e p')
    let ?r = "streamSpeech service cb utterance (n + 1) p'"
    from Retry(3) have p': "p' = snd (rotateApiKey q)" and t: "fst (rotateApiKey q)" by simp_all
    have ih: "rotations ?r = map (\<lambda>j. fst (rotateApiKey (poolAt (Suc j) q))) [0 ..< length (rotations ?r)]"
      using "1.IH" [OF Retry(1) [symmetric] refl Retry(2) Retry(3) [symmetric] refl]
      by (simp add: p')
    have len: "length (rotations (streamSpeech service cb utterance n q)) = Suc (length (rotations ?r))"
      by (simp add: Retry(4))
    have "rotations (streamSpeech service cb utterance n q) = True # rotations ?r"
      by (simp add: Retry(4))
    also note ih
    finally show ?thesis
      unfolding len by (subst map_upt_shift) (simp add: t)
  next
    case (NoCredential ds e p')
    then show ?thesis by simp
  qed simp_all
qed

lemma streamSpeech_pool:
  "poolAfter (streamSpeech service cb utterance n q) =
   poolAt (length (rotations (streamSpeech service cb utterance n q))) q"
proof (induction service cb utterance n q rule: streamSpeech.induct)
  case (1 service cb utterance n q)
  show ?case
  proof (cases service cb utterance n q rule: streamSpeech_cases)
    case (Retry ds e p')
    from Retry(3) have p': "p' = snd (rotateApiKey q)" by simp
    from "1.IH" [OF Retry(1) [symmetric] refl Retry(2) Retry(3) [symmetric] refl]
    show ?thesis by (simp add: Retry(4) p')
  next
    case (NoCredential ds e p')
    then show ?thesis by simp
  qed simp_all
qed

lemma generateStreamResponse_tries_real:
  "tries (generateStreamResponse chat onChunk n q) =
   map (\<lambda>j. (n + j, isl (snd (chatAttempt chat onChunk (n + j) (poolAt j q)))))
     [0 ..< length (tries (generateStreamResponse chat onChunk n q))]"
proof (induction chat onChunk n q rule: generateStreamResponse.induct)
  case (1 chat onChunk n q)
  show ?case
  proof (cases chat onChunk n q rule: generateStreamResponse_cases)
    case (Retry sh e p')
    let ?r = "generateStreamResponse chat onChunk (n + 1) p'"
    from Retry(3) have p': "p' = snd (rotateApiKey q)" by simp
    have ih: "tries ?r =
      map (\<lambda>j. (n + Suc j, isl (snd (chatAttempt chat onChunk (n + Suc j) (poolAt (Suc j) q)))))
        [0 ..< length (tries ?r)]"
      using "1.IH" [OF Retry(1) [symmetric] refl Retry(2) Retry(3) [symmetric] refl]
      by (simp add: p')
    have len: "length (tries (generateStreamResponse chat onChunk n q)) = Suc (length (tries ?r))"
      by (simp add: Retry(4))
    have "tries (generateStreamResponse chat onChunk n q) = (n, True) # tries ?r"
      by (simp add: Retry(4))
    also note ih
    finally show ?thesis
      unfolding len by (subst map_upt_shift) (simp add: Retry(1))
  qed simp_all
qed

lemma generateStreamResponse_retry_iff:
  "j < length (tries (generateStreamResponse chat onChunk n q)) \<Longrightarrow>
   Suc j < length (tries (generateStreamResponse chat onChunk n q)) \<longleftrightarrow>
   isl (snd (chatAttempt chat onChunk (n + j) (poolAt j q))) \<and> n + j < 4 \<and>
   fst (rotateApiKey (poolAt j q))"
proof (induction chat onChunk n q arbitrary: j rule: generateStreamResponse.induct)
  case (1 chat onChunk n q)
  show ?case
  proof (cases chat onChunk n q rule: generateStreamResponse_cases)
    case (Retry sh e p')
    let ?r = "generateStreamResponse chat onChunk (n + 1) p'"
    from Retry(3) have p': "p' = snd (rotateApiKey q)" by simp
    show ?thesis
    proof (cases j)
      case 0
      with Retry show ?thesis by (simp add: generateStreamResponse_tries_nonempty)
    next
      case (Suc i)
      with "1.prems" Retry(4) have "i < length (tries ?r)" by simp
      from "1.IH" [OF Retry(1) [symmetric] refl Retry(2) Retry(3) [symmetric] refl this]
      show ?thesis by (simp add: Suc Retry(4) p')
    qed
  next
    case (Ok sh fullText)
    with "1.prems" show ?thesis by simp
  next
    case (NoCredential sh e p')
    with "1.prems" show ?thesis by simp
  next
    case (Ceiling sh e)
    with "1.prems" show ?thesis by simp
  qed
qed

lemma generateStreamResponse_rotation_iff:
  "j < length (tries (generateStreamResponse chat onChunk n q)) \<Longrightarrow>
   j < length (rotated (generateStreamResponse chat onChunk n q)) \<longleftrightarrow>
   isl (snd (chatAttempt chat onChunk (n + j) (poolAt j q))) \<and> n + j < 4"
proof (induction chat onChunk n q arbitrary: j rule: generateStreamResponse.induct)
  case (1 chat onChunk n q)
  show ?case
  proof (cases chat onChunk n q rule: generateStreamResponse_cases)
    case (Retry sh e p')
    let ?r = "generateStreamResponse chat onChunk (n + 1) p'"
    from Retry(3) have p': "p' = snd (rotateApiKey q)" by simp
    show ?thesis
    proof (cases j)
      case 0
      with Retry show ?thesis by simp
    next
      case (Suc i)
      with "1.prems" Retry(4) have "i < length (tries ?r)" by simp
      from "1.IH" [OF Retry(1) [symmetric] refl Retry(2) Retry(3) [symmetric] refl this]
      show ?thesis by (simp add: Suc Retry(4) p')
    qed
  next
    case (Ok sh fullText)
    with "1.prems" show ?thesis by simp
  next
    case (NoCredential sh e p')
    with "1.prems" show ?thesis by simp
  next
    case (Ceiling sh e)
    with "1.prems" show ?thesis by simp
  qed
qed

lemma generateStreamResponse_rotated_real:
  "rotated (generateStreamResponse chat onChunk n q) =
   map (\<lambda>j. fst (rotateApiKey (poolAt j q)))
     [0 ..< length (rotated (generateStreamResponse chat onChunk n q))]"
proof (induction chat onChunk n q rule: generateStreamResponse.induct)
  case (1 chat onChunk n q)
  show ?case
  proof (cases chat onChunk n q rule: generateStreamResponse_cases)
    case (Retry sh e p')
    let ?r = "generateStreamResponse chat onChunk (n + 1) p'"
    from Retry(3) have p': "p' = snd (rotateApiKey q)" and t: "fst (rotateApiKey q)" by simp_all
    have ih: "rotated ?r = map (\<lambda>j. fst (rotateApiKey (poolAt (Suc j) q))) [0 ..< length (rotated ?r)]"
      using "1.IH" [OF Retry(1) [symmetric] refl Retry(2) Retry(3) [symmetric] refl]
      by (simp add: p')
    have len: "length (rotated (generateStreamResponse chat onChunk n q)) = Suc (length (rotated ?r))"
      by (simp add: Retry(4))
    have "rotated (generateStreamResponse chat onChunk n q) = True # rotated ?r"
      by (simp add: Retry(4))
    also note ih
    finally show ?thesis
      unfolding len by (subst map_upt_shift) (simp add: t)
  next
    case (NoCredential sh e p')
    then show ?thesis by simp
  qed simp_all
qed

lemma generateStreamResponse_pool:
  "poolLeft (generateStreamResponse chat onChunk n q) =
   poolAt (length (rotated (generateStreamResponse chat onChunk n q))) q"
proof (induction chat onChunk n q rule: generateStreamResponse.induct)
  case (1 chat onChunk n q)
  show ?case
  proof (cases chat onChunk n q rule: generateStreamResponse_cases)
    case (Retry sh e p')
    from Retry(3) have p': "p' = snd (rotateApiKey q)" by simp
    from "1.IH" [OF Retry(1) [symmetric] refl Retry(2) Retry(3) [symmetric] refl]
    show ?thesis by (simp add: Retry(4) p')
  next
    case (NoCredential sh e p')
    then show ?thesis by simp
  qed simp_all
qed

lemma generateStreamResponse_shown:
  "shown (generateStreamResponse chat onChunk n q) =
   concat (map (\<lambda>j. fst (chatAttempt chat onChunk (n + j) (poolAt j q)))
     [0 ..< length (tries (generateStreamResponse chat onChunk n q))])"
proof (induction chat onChunk n q rule: generateStreamResponse.induct)
  case (1 chat onChunk n q)
  show ?case
  proof (cases chat onChunk n q rule: generateStreamResponse_cases)
    case (Retry sh e p')
    let ?r = "generateStreamResponse chat onChunk (n + 1) p'"
    from Retry(3) have p': "p' = snd (rotateApiKey q)" by simp
    have ih: "shown ?r =
      concat (map (\<lambda>j. fst (chatAttempt chat onChunk (n + Suc j) (poolAt (Suc j) q)))
        [0 ..< length (tries ?r)])"
      using "1.IH" [OF Retry(1) [symmetric] refl Retry(2) Retry(3) [symmetric] refl]
      by (simp add: p')
    have len: "length (tries (generateStreamResponse chat onChunk n q)) = Suc (length (tries ?r))"
      by (simp add: Retry(4))
    have "shown (generateStreamResponse chat onChunk n q) = sh @ shown ?r"
      by (simp add: Retry(4))
    also note ih
    finally show ?thesis
      unfolding len by (subst map_upt_shift) (simp add: Retry(1))
  qed simp_all
qed

lemma generateStreamResponse_outcome:
  "outcome (generateStreamResponse chat onChunk n q) =
   (case snd (chatAttempt chat onChunk
                (n + (length (tries (generateStreamResponse chat onChunk n q)) - 1))
                (poolAt (length (tries (generateStreamResponse chat onChunk n q)) - 1) q)) of
      Inr fullText \<Rightarrow> Inr fullText
    | Inl e \<Rightarrow> Inr apology)"
proof (induction chat onChunk n q rule: generateStreamResponse.induct)
  case (1 chat onChunk n q)
  show ?case
  proof (cases chat onChunk n q rule: generateStreamResponse_cases)
    case (Retry sh e p')
    let ?r = "generateStreamResponse chat onChunk (n + 1) p'"
    from Retry(3) have p': "p' = snd (rotateApiKey q)" by simp
    have "tries ?r \<noteq> []" by (rule generateStreamResponse_tries_nonempty)
    then obtain m where m: "length (tries ?r) = Suc m" by (cases "tries ?r") auto
    from "1.IH" [OF Retry(1) [symmetric] refl Retry(2) Retry(3) [symmetric] refl] m
    show ?thesis by (simp add: Retry(4) p')
  qed simp_all
qed


lemma exhausted_speech:
  assumes "length (keys p) \<le> cursor p"
  shows "heard (streamSpeech service cb utterance n p) = [] \<and>
         heardLater (streamSpeech service cb utterance n p) = []"
proof -
  from assms have a: "speechAttempt service cb utterance n p = ([], Some PoolExhausted)"
    by (simp add: speechAttempt_def getApiKey_def)
  from assms have r: "fst (rotateApiKey p) = False"
    by (simp add: rotateApiKey_def)
  show ?thesis
    by (cases service cb utterance n p rule: streamSpeech_cases) (use a r in auto)
qed

lemma exhausted_chat:
  assumes "length (keys p) \<le> cursor p"
  shows "outcome (generateStreamResponse chat onChunk n p) = Inr apology"
proof -
  from assms have a: "chatAttempt chat onChunk n p = ([], Inl PoolExhausted)"
    by (simp add: chatAttempt_def getApiKey_def)
  from assms have r: "fst (rotateApiKey p) = False"
    by (simp add: rotateApiKey_def)
  show ?thesis
    by (cases chat onChunk n p rule: generateStreamResponse_cases) (use a r in auto)
qed

subsection \<open>Claims about the retries\<close>

text \<open>
  C5. A call of \<^verbatim>\<open>streamSpeech\<close> makes between one and four attempts. Attempt \<open>j\<close> is the
  \<^verbatim>\<open>try\<close> block run for the same text with the retry count \<open>j\<close> on the pool as \<open>j\<close> rotations
  have left it, and the log says of each whether that block failed. After attempt \<open>j\<close> comes
  another one exactly when the block failed, \<open>j\<close> is below the ceiling of 3 and rotating the
  pool reported a credential; the pool is rotated after attempt \<open>j\<close> exactly when the block
  failed below the ceiling, each rotation logged is the answer of \<^verbatim>\<open>rotateApiKey\<close> on the pool
  at that point, and the pool left behind has been rotated that many times. What the callback
  receives is what the attempts hand to it, one after the other: every retry starts the
  chunk from scratch. \<^verbatim>\<open>generateStreamResponse\<close> does the same with a ceiling of 4, at most
  five attempts, and it returns the text of the last attempt, or the apology when that one
  failed.
\<close>

theorem bounded_rotating_retry:
  "1 \<le> length (attempts (streamSpeech service cb utterance 0 p)) \<and>
   length (attempts (streamSpeech service cb utterance 0 p)) \<le> 4 \<and>
   attempts (streamSpeech service cb utterance 0 p) =
     map (\<lambda>j. (utterance, j, snd (speechAttempt service cb utterance j (poolAt j p)) \<noteq> None))
       [0 ..< length (attempts (streamSpeech service cb utterance 0 p))] \<and>
   (\<forall>j < length (attempts (streamSpeech service cb utterance 0 p)).
      (Suc j < length (attempts (streamSpeech service cb utterance 0 p)) \<longleftrightarrow>
         snd (speechAttempt service cb utterance j (poolAt j p)) \<noteq> None \<and> j < 3 \<and>
         fst (rotateApiKey (poolAt j p))) \<and>
      (j < length (rotations (streamSpeech service cb utterance 0 p)) \<longleftrightarrow>
         snd (speechAttempt service cb utterance j (poolAt j p)) \<noteq> None \<and> j < 3)) \<and>
   rotations (streamSpeech service cb utterance 0 p) =
     map (\<lambda>j. fst (rotateApiKey (poolAt j p)))
       [0 ..< length (rotations (streamSpeech service cb utterance 0 p))] \<and>
   poolAfter (streamSpeech service cb utterance 0 p) =
     poolAt (length (rotations (streamSpeech service cb utterance 0 p))) p \<and>
   heard (streamSpeech service cb utterance 0 p) = fst (speechAttempt service cb utterance 0 p) \<and>
   heardLater (streamSpeech service cb utterance 0 p) =
     concat (map (\<lambda>j. fst (speechAttempt service cb utterance j (poolAt j p)))
       [1 ..< length (attempts (streamSpeech service cb utterance 0 p))]) \<and>
   1 \<le> length (tries (generateStreamResponse chat onChunk 0 q)) \<and>
   length (tries (generateStreamResponse chat onChunk 0 q)) \<le> 5 \<and>
   tries (generateStreamResponse chat onChunk 0 q) =
     map (\<lambda>j. (j, isl (snd (chatAttempt chat onChunk j (poolAt j q)))))
       [0 ..< length (tries (generateStreamResponse chat onChunk 0 q))] \<and>
   (\<forall>j < length (tries (generateStreamResponse chat onChunk 0 q)).
      (Suc j < length (tries (generateStreamResponse chat onChunk 0 q)) \<longleftrightarrow>
         isl (snd (chatAttempt chat onChunk j (poolAt j q))) \<and> j < 4 \<and>
         fst (rotateApiKey (poolAt j q))) \<and>
      (j < length (rotated (generateStreamResponse chat onChunk 0 q)) \<longleftrightarrow>
         isl (snd (chatAttempt chat onChunk j (poolAt j q))) \<and> j < 4)) \<and>
   rotated (generateStreamResponse chat onChunk 0 q) =
     map (\<lambda>j. fst (rotateApiKey (poolAt j q)))
       [0 ..< length (rotated (generateStreamResponse chat onChunk 0 q))] \<and>
   poolLeft (generateStreamResponse chat onChunk 0 q) =
     poolAt (length (rotated (generateStreamResponse chat onChunk 0 q))) q \<and>
   shown (generateStreamResponse chat onChunk 0 q) =
     concat (map (\<lambda>j. fst (chatAttempt chat onChunk j (poolAt j q)))
       [0 ..< length (tries (generateStreamResponse chat onChunk 0 q))]) \<and>
   outcome (generateStreamResponse chat onChunk 0 q) =
     (case snd (chatAttempt chat onChunk
                  (length (tries (generateStreamResponse chat onChunk 0 q)) - 1)
                  (poolAt (length (tries (generateStreamResponse chat onChunk 0 q)) - 1) q)) of
        Inr fullText \<Rightarrow> Inr fullText
      | Inl e \<Rightarrow> Inr apology)"
proof -
  have s1: "1 \<le> length (attempts (streamSpeech service cb utterance 0 p))"
    using streamSpeech_attempts_nonempty [of service cb utterance 0 p]
    by (cases "attempts (streamSpeech service cb utterance 0 p)") simp_all
  have s2: "length (attempts (streamSpeech service cb utterance 0 p)) \<le> 4"
    using streamSpeech_count [of 0 service cb utterance p] by simp
  have s3: "attempts (streamSpeech service cb utterance 0 p) =
     map (\<lambda>j. (utterance, j, snd (speechAttempt service cb utterance j (poolAt j p)) \<noteq> None))
       [0 ..< length (attempts (streamSpeech service cb utterance 0 p))]"
    using streamSpeech_attempts_real [of service cb utterance 0 p] by simp
  have s4: "\<forall>j < length (attempts (streamSpeech service cb utterance 0 p)).
      (Suc j < length (attempts (streamSpeech service cb utterance 0 p)) \<longleftrightarrow>
         snd (speechAttempt service cb utterance j (poolAt j p)) \<noteq> None \<and> j < 3 \<and>
         fst (rotateApiKey (poolAt j p))) \<and>
      (j < length (rotations (streamSpeech service cb utterance 0 p)) \<longleftrightarrow>
         snd (speechAttempt service cb utterance j (poolAt j p)) \<noteq> None \<and> j < 3)"
    using streamSpeech_retry_iff [of _ service cb utterance 0 p]
      streamSpeech_rotation_iff [of _ service cb utterance 0 p] by simp
  have s5: "rotations (streamSpeech service cb utterance 0 p) =
     map (\<lambda>j. fst (rotateApiKey (poolAt j p)))
       [0 ..< length (rotations (streamSpeech service cb utterance 0 p))]"
    by (rule streamSpeech_rotations_real)
  have s6: "poolAfter (streamSpeech service cb utterance 0 p) =
     poolAt (length (rotations (streamSpeech service cb utterance 0 p))) p"
    by (rule streamSpeech_pool)
  have s7: "heard (streamSpeech service cb utterance 0 p) = fst (speechAttempt service cb utterance 0 p)"
    and s8: "heardLater (streamSpeech service cb utterance 0 p) =
     concat (map (\<lambda>j. fst (speechAttempt service cb utterance j (poolAt j p)))
       [1 ..< length (attempts (streamSpeech service cb utterance 0 p))])"
    using streamSpeech_heard [of service cb utterance 0 p] by simp_all
  have g1: "1 \<le> length (tries (generateStreamResponse chat onChunk 0 q))"
    using generateStreamResponse_tries_nonempty [of chat onChunk 0 q]
    by (cases "tries (generateStreamResponse chat onChunk 0 q)") simp_all
  have g2: "length (tries (generateStreamResponse chat onChunk 0 q)) \<le> 5"
    using generateStreamResponse_count [of 0 chat onChunk q] by simp
  have g3: "tries (generateStreamResponse chat onChunk 0 q) =
     map (\<lambda>j. (j, isl (snd (chatAttempt chat onChunk j (poolAt j q)))))
       [0 ..< length (tries (generateStreamResponse chat onChunk 0 q))]"
    using generateStreamResponse_tries_real [of chat onChunk 0 q] by simp
  have g4: "\<forall>j < length (tries (generateStreamResponse chat onChunk 0 q)).
      (Suc j < length (tries (generateStreamResponse chat onChunk 0 q)) \<longleftrightarrow>
         isl (snd (chatAttempt chat onChunk j (poolAt j q))) \<and> j < 4 \<and>
         fst (rotateApiKey (poolAt j q))) \<and>
      (j < length (rotated (generateStreamResponse chat onChunk 0 q)) \<longleftrightarrow>
         isl (snd (chatAttempt chat onChunk j (poolAt j q))) \<and> j < 4)"
    using generateStreamResponse_retry_iff [of _ chat onChunk 0 q]
      generateStreamResponse_rotation_iff [of _ chat onChunk 0 q] by simp
  have g5: "rotated (generateStreamResponse chat onChunk 0 q) =
     map (\<lambda>j. fst (rotateApiKey (poolAt j q)))
       [0 ..< length (rotated (generateStreamResponse chat onChunk 0 q))]"
    by (rule generateStreamResponse_rotated_real)
  have g6: "poolLeft (generateStreamResponse chat onChunk 0 q) =
     poolAt (length (rotated (generateStreamResponse chat onChunk 0 q))) q"
    by (rule generateStreamResponse_pool)
  have g7: "shown (generateStreamResponse chat onChunk 0 q) =
     concat (map (\<lambda>j. fst (chatAttempt chat onChunk j (poolAt j q)))
       [0 ..< length (tries (generateStreamResponse chat onChunk 0 q))])"
    using generateStreamResponse_shown [of chat onChunk 0 q] by simp
  have g8: "outcome (generateStreamResponse chat onChunk 0 q) =
     (case snd (chatAttempt chat onChunk
                  (length (tries (generateStreamResponse chat onChunk 0 q)) - 1)
                  (poolAt (length (tries (generateStreamResponse chat onChunk 0 q)) - 1) q)) of
        Inr fullText \<Rightarrow> Inr fullText
      | Inl e \<Rightarrow> Inr apology)"
    using generateStreamResponse_outcome [of chat onChunk 0 q] by simp
  show ?thesis
    by (intro conjI) (fact s1 s2 s3 s4 s5 s6 s7 s8 g1 g2 g3 g4 g5 g6 g7 g8)+
qed

theorem bounded_rotating_retry_witness:
  "length (attempts (streamSpeech flaky (\<lambda>audioData. None) [0x61] 0 twoKeys)) = 2 \<and>
   attempts (streamSpeech flaky (\<lambda>audioData. None) [0x61] 0 twoKeys) =
     [([0x61], 0, True), ([0x61], 1, False)] \<and>
   rotations (streamSpeech flaky (\<lambda>audioData. None) [0x61] 0 twoKeys) = [True] \<and>
   poolAfter (streamSpeech flaky (\<lambda>audioData. None) [0x61] 0 twoKeys) = twoKeys\<lparr>cursor := 1\<rparr> \<and>
   heard (streamSpeech flaky (\<lambda>audioData. None) [0x61] 0 twoKeys) = [[0x41]] \<and>
   heardLater (streamSpeech flaky (\<lambda>audioData. None) [0x61] 0 twoKeys) = [[0x42]] \<and>
   length (tries (generateStreamResponse flakyChat (\<lambda>shownText. None) 0 twoKeys)) = 2 \<and>
   tries (generateStreamResponse flakyChat (\<lambda>shownText. None) 0 twoKeys) = [(0, True), (1, False)] \<and>
   rotated (generateStreamResponse flakyChat (\<lambda>shownText. None) 0 twoKeys) = [True] \<and>
   shown (generateStreamResponse flakyChat (\<lambda>shownText. None) 0 twoKeys) = [[0x61], [0x62]] \<and>
   outcome (generateStreamResponse flakyChat (\<lambda>shownText. None) 0 twoKeys) = Inr [0x62]"
proof -
  let ?cb = "(\<lambda>audioData. None) :: callback"
  let ?S = "streamSpeech flaky ?cb [0x61] 0 twoKeys"
  let ?G = "generateStreamResponse flakyChat ?cb 0 twoKeys"
  note t = bounded_rotating_retry [of flaky ?cb "[0x61]" twoKeys flakyChat ?cb twoKeys]
  have p0: "poolAt 0 twoKeys = twoKeys" and p1: "poolAt 1 twoKeys = twoKeys\<lparr>cursor := 1\<rparr>"
    by (simp_all add: rotateApiKey_def twoKeys_def)
  have r0: "fst (rotateApiKey (poolAt 0 twoKeys))" and r1: "\<not> fst (rotateApiKey (poolAt 1 twoKeys))"
    unfolding p0 p1 by (simp_all add: rotateApiKey_def twoKeys_def)
  have a0: "speechAttempt flaky ?cb [0x61] 0 (poolAt 0 twoKeys) = ([[0x41]], Some TransportFailure)"
    and a1: "speechAttempt flaky ?cb [0x61] 1 (poolAt 1 twoKeys) = ([[0x42]], None)"
    unfolding p0 p1 by (simp_all add: speechAttempt_def getApiKey_def flaky_def twoKeys_def)
  have c0: "chatAttempt flakyChat ?cb 0 (poolAt 0 twoKeys) = ([[0x61]], Inl TransportFailure)"
    and c1: "chatAttempt flakyChat ?cb 1 (poolAt 1 twoKeys) = ([[0x62]], Inr [0x62])"
    unfolding p0 p1 by (simp_all add: chatAttempt_def getApiKey_def flakyChat_def twoKeys_def Let_def)
  note sIff = t [THEN conjunct2, THEN conjunct2, THEN conjunct2, THEN conjunct1, rule_format]
  from t have "0 < length (attempts ?S)" by linarith
  from sIff [OF this, THEN conjunct1] a0 r0 have s1: "Suc 0 < length (attempts ?S)" by simp
  from sIff [OF this, THEN conjunct1] a1 have "\<not> Suc (Suc 0) < length (attempts ?S)" by simp
  with s1 have sN: "length (attempts ?S) = 2" by linarith
  from sIff [of 0, THEN conjunct2] sIff [of 1, THEN conjunct2] sN a0 a1
  have "0 < length (rotations ?S)" "\<not> 1 < length (rotations ?S)" by simp_all
  then have sR: "length (rotations ?S) = 1" by linarith
  have two: "[0 ..< 2] = [0, 1]" and one: "[1 ..< 2] = [1]" and zero: "[0 ..< 1] = [0]"
    by (simp_all add: upt_conv_Cons numeral_2_eq_2)
  from t [THEN conjunct2, THEN conjunct2, THEN conjunct1]
  have sA: "attempts ?S = [([0x61], 0, True), ([0x61], 1, False)]"
    unfolding sN two by (simp only: list.map a0 a1 snd_conv) simp
  from t [THEN conjunct2, THEN conjunct2, THEN conjunct2, THEN conjunct2, THEN conjunct1]
  have sRot: "rotations ?S = [True]"
    unfolding sR zero by (simp only: list.map r0)
  from t [THEN conjunct2, THEN conjunct2, THEN conjunct2, THEN conjunct2, THEN conjunct2, THEN conjunct1]
  have sP: "poolAfter ?S = twoKeys\<lparr>cursor := 1\<rparr>"
    unfolding sR p1 .
  note rest = t [THEN conjunct2, THEN conjunct2, THEN conjunct2, THEN conjunct2, THEN conjunct2, THEN conjunct2]
  from rest [THEN conjunct1]
  have sH: "heard ?S = [[0x41]]"
    using a0 unfolding p0 by simp
  from rest [THEN conjunct2, THEN conjunct1]
  have sL: "heardLater ?S = [[0x42]]"
    unfolding sN one by (simp only: list.map a1 fst_conv concat.simps append_Nil2)
  note chat = rest [THEN conjunct2, THEN conjunct2]
  note gIff = chat [THEN conjunct2, THEN conjunct2, THEN conjunct2, THEN conjunct1, rule_format]
  from chat have "0 < length (tries ?G)" by linarith
  from gIff [OF this, THEN conjunct1] c0 r0 have g1: "Suc 0 < length (tries ?G)" by simp
  from gIff [OF this, THEN conjunct1] c1 have "\<not> Suc (Suc 0) < length (tries ?G)" by simp
  with g1 have gN: "length (tries ?G) = 2" by linarith
  from gIff [of 0, THEN conjunct2] gIff [of 1, THEN conjunct2] gN c0 c1
  have "0 < length (rotated ?G)" "\<not> 1 < length (rotated ?G)" by simp_all
  then have gR: "length (rotated ?G) = 1" by linarith
  from chat [THEN conjunct2, THEN conjunct2, THEN conjunct1]
  have gT: "tries ?G = [(0, True), (1, False)]"
    unfolding gN two by (simp only: list.map c0 c1 snd_conv) simp
  note chat2 = chat [THEN conjunct2, THEN conjunct2, THEN conjunct2, THEN conjunct2]
  from chat2 [THEN conjunct1]
  have gRot: "rotated ?G = [True]"
    unfolding gR zero by (simp only: list.map r0)
  from chat2 [THEN conjunct2, THEN conjunct2, THEN conjunct1]
  have gS: "shown ?G = [[0x61], [0x62]]"
    unfolding gN two by (simp only: list.map c0 c1 fst_conv concat.simps) simp
  have "(2::nat) - 1 = 1" by simp
  with chat2 [THEN conjunct2, THEN conjunct2, THEN conjunct2]
  have gO: "outcome ?G = Inr [0x62]"
    unfolding gN by (simp only: c1 snd_conv sum.case)
  from sN sA sRot sP sH sL gN gT gRot gS gO show ?thesis by blast
qed

text \<open>
  C6. The promise of \<^verbatim>\<open>streamSpeech\<close> is always fulfilled, and the one of
  \<^verbatim>\<open>generateStreamResponse\<close> is always fulfilled with a string, whatever the services and the
  callbacks do. When the last attempt of \<^verbatim>\<open>generateStreamResponse\<close> failed (at the ceiling or
  with no credential left to rotate to), the string is the apology; with the pool exhausted
  from the start it is the apology too, and \<^verbatim>\<open>streamSpeech\<close> then hands nothing to its
  callback at all.
\<close>

theorem exhaustion_not_thrown:
  "settled (streamSpeech service cb utterance n p) = Inr () \<and>
   (\<exists>answer. outcome (generateStreamResponse chat onChunk m q) = Inr answer) \<and>
   (snd (last (tries (generateStreamResponse chat onChunk m q))) \<longrightarrow>
      outcome (generateStreamResponse chat onChunk m q) = Inr apology) \<and>
   (length (keys q) \<le> cursor q \<longrightarrow>
      outcome (generateStreamResponse chat onChunk m q) = Inr apology) \<and>
   (length (keys p) \<le> cursor p \<longrightarrow>
      heard (streamSpeech service cb utterance n p) = [] \<and>
      heardLater (streamSpeech service cb utterance n p) = [])"
proof (intro conjI impI)
  show "settled (streamSpeech service cb utterance n p) = Inr ()"
    by (rule streamSpeech_settled)
  show "\<exists>answer. outcome (generateStreamResponse chat onChunk m q) = Inr answer"
    by (rule generateStreamResponse_resolves)
  show "outcome (generateStreamResponse chat onChunk m q) = Inr apology"
    if "snd (last (tries (generateStreamResponse chat onChunk m q)))"
    using that by (rule generateStreamResponse_apology)
  show "outcome (generateStreamResponse chat onChunk m q) = Inr apology"
    if "length (keys q) \<le> cursor q"
    using that by (rule exhausted_chat)
  show "heard (streamSpeech service cb utterance n p) = []"
    and "heardLater (streamSpeech service cb utterance n p) = []"
    if "length (keys p) \<le> cursor p"
    using exhausted_speech [OF that] by simp_all
qed

theorem exhaustion_not_thrown_witness:
  "snd (last (tries (generateStreamResponse (\<lambda>key n. ([], Some TransportFailure)) (\<lambda>shownText. None) 0
                      \<lparr>keys = [[0x6B]], cursor = 0\<rparr>))) \<and>
   outcome (generateStreamResponse (\<lambda>key n. ([], Some TransportFailure)) (\<lambda>shownText. None) 0
              \<lparr>keys = [[0x6B]], cursor = 0\<rparr>) = Inr apology \<and>
   length (keys \<lparr>keys = [[0x6B]], cursor = 1\<rparr>) \<le> cursor \<lparr>keys = [[0x6B]], cursor = 1\<rparr> \<and>
   outcome (generateStreamResponse (\<lambda>key n. ([], None)) (\<lambda>shownText. None) 0
              \<lparr>keys = [[0x6B]], cursor = 1\<rparr>) = Inr apology \<and>
   heard (streamSpeech (\<lambda>key u n. ([Some [0x41]], None)) (\<lambda>audioData. None) [0x61] 0
              \<lparr>keys = [[0x6B]], cursor = 1\<rparr>) = []"
proof -
  let ?down = "(\<lambda>key n. ([], Some TransportFailure)) :: chat_service"
  let ?up = "(\<lambda>key n. ([], None)) :: chat_service"
  let ?cb = "(\<lambda>shownText. None) :: callback"
  let ?speech = "(\<lambda>key u n. ([Some [0x41]], None)) :: speech_service"
  let ?fresh = "\<lparr>keys = [[0x6B]], cursor = 0\<rparr>"
  let ?used = "\<lparr>keys = [[0x6B]], cursor = 1\<rparr>"
  have t: "tries (generateStreamResponse ?down ?cb 0 ?fresh) = [(0, True)]"
    by (subst generateStreamResponse.simps)
       (simp add: chatAttempt_def getApiKey_def rotateApiKey_def)
  then have failed: "snd (last (tries (generateStreamResponse ?down ?cb 0 ?fresh)))"
    by simp
  have gone: "length (keys ?used) \<le> cursor ?used" by simp
  note thm1 = exhaustion_not_thrown [of ?speech ?cb "[0x61]" 0 ?used ?down ?cb 0 ?fresh]
  note thm2 = exhaustion_not_thrown [of ?speech ?cb "[0x61]" 0 ?used ?up ?cb 0 ?used]
  from thm1 failed have a: "outcome (generateStreamResponse ?down ?cb 0 ?fresh) = Inr apology"
    by blast
  from thm2 gone have b: "outcome (generateStreamResponse ?up ?cb 0 ?used) = Inr apology"
    by blast
  from thm2 gone have c: "heard (streamSpeech ?speech ?cb [0x61] 0 ?used) = []"
    by blast
  from failed a gone b c show ?thesis by blast
qed

lemma stripCodeBlocks_plain: "\<forall>c \<in> set s. plain c \<Longrightarrow> stripCodeBlocks s = s"
proof (induction s)
  case Nil
  then show ?case by (simp add: stripCodeBlocks.simps)
next
  case (Cons c s)
  then have "c \<noteq> 0x60" by (simp add: plain_def)
  then have "take 3 (c # s) \<noteq> fence" by (auto simp: fence_def)
  with Cons show ?case by (subst stripCodeBlocks.simps) simp
qed

lemma replaceUrls_plain: "\<forall>c \<in> set s. plain c \<Longrightarrow> replaceUrls s = s"
proof (induction s)
  case Nil
  then show ?case by (simp add: replaceUrls.simps)
next
  case (Cons c s)
  then have "c \<noteq> 0x68" by (simp add: plain_def)
  then have "urlAt (c # s) = None" by (auto simp: urlAt_def)
  with Cons show ?case by (subst replaceUrls.simps) simp
qed

lemma markToSpace_plain: "\<forall>c \<in> set s. plain c \<Longrightarrow> map markToSpace s = s"
  by (induction s) (auto simp: plain_def markToSpace_def)

lemma trim_plain: "\<forall>c \<in> set s. plain c \<Longrightarrow> trim s = s"
proof -
  assume p: "\<forall>c \<in> set s. plain c"
  then have "\<forall>c \<in> set s. \<not> isSpace c" by (simp add: plain_def)
  then have a: "dropWhile isSpace s = s" by (cases s) auto
  from \<open>\<forall>c \<in> set s. \<not> isSpace c\<close> have "\<forall>c \<in> set (rev s). \<not> isSpace c" by simp
  then have "dropWhile isSpace (rev s) = rev s" by (cases "rev s") auto
  with a show ?thesis by (simp add: trim_def)
qed

lemma cleanText_plain:
  "\<forall>c \<in> set s. plain c \<Longrightarrow> length s \<le> 2000 \<Longrightarrow> cleanText s = s"
  by (simp add: cleanText_def stripCodeBlocks_plain markToSpace_plain replaceUrls_plain trim_plain)

subsection \<open>After a stop nothing is scheduled\<close>

lemma continueLoop_stopped:
  "\<not> isSpeakingRef (ui w) \<Longrightarrow> continueLoop chunks w = w"
  by (simp add: continueLoop_def split: list.splits)

lemma settle_stopped:
  "\<not> isSpeakingRef (ui w) \<Longrightarrow> settle c w = w"
  by (simp add: settle_def continueLoop_stopped split: option.splits)

lemma catchRetry_keeps:
  "isSpeakingRef (ui (catchRetry c w)) = isSpeakingRef (ui w) \<and>
   scheduled (catchRetry c w) = scheduled w \<and>
   loopCalls (catchRetry c w) = loopCalls w \<and>
   sourcesRef (ui (catchRetry c w)) = sourcesRef (ui w)"
  by (simp add: catchRetry_def callStreamSpeech_def loopCalls_def Let_def split: prod.splits bool.splits)

lemma step_stopped:
  assumes "\<not> isSpeak e" and "\<not> isSpeakingRef (ui w)"
  shows "\<not> isSpeakingRef (ui (step fl atob msg e w)) \<and>
         scheduled (step fl atob msg e w) = scheduled w \<and>
         loopCalls (step fl atob msg e w) = loopCalls w \<and>
         (sourcesRef (ui w) = [] \<longrightarrow> sourcesRef (ui (step fl atob msg e w)) = [])"
proof (cases e)
  case (Speak suspended now)
  with assms(1) show ?thesis by (simp add: isSpeak_def)
next
  case (Resumed now)
  with assms(2) show ?thesis
    by (simp add: step_def startLoop_def continueLoop_stopped loopCalls_def split: list.splits)
next
  case ResumeFailed
  with assms(2) show ?thesis
    by (simp add: step_def loopCalls_def split: list.splits)
next
  case (Frame k audioData now)
  with assms(2) show ?thesis
    by (simp add: step_def onAudioChunk_def split: option.splits)
next
  case (StreamEnd k)
  with assms(2) show ?thesis
    by (simp add: step_def settle_stopped loopCalls_def split: option.splits)
next
  case (StreamError k)
  show ?thesis
  proof (cases "find (\<lambda>c. callId c = k) (inFlight w)")
    case None
    with StreamError assms(2) show ?thesis by (simp add: step_def)
  next
    case (Some c)
    let ?w1 = "w\<lparr>inFlight := filter (\<lambda>c. callId c \<noteq> k) (inFlight w)\<rparr>"
    from assms(2) have "\<not> isSpeakingRef (ui (catchRetry c ?w1))"
      by (simp add: catchRetry_keeps)
    then have "settle c (catchRetry c ?w1) = catchRetry c ?w1" by (rule settle_stopped)
    with StreamError Some assms(2) show ?thesis
      by (simp add: step_def catchRetry_keeps) (simp add: loopCalls_def)
  qed
next
  case (Ended n now)
  with assms(2) show ?thesis
    by (simp add: step_def onended_def loopCalls_def Let_def)
next
  case Unmount
  with assms(2) show ?thesis
    by (simp add: step_def stopAudio_def loopCalls_def)
qed

lemma run_stopped:
  "\<forall>e \<in> set es. \<not> isSpeak e \<Longrightarrow> \<not> isSpeakingRef (ui w) \<Longrightarrow> sourcesRef (ui w) = [] \<Longrightarrow>
   \<not> isSpeakingRef (ui (run fl atob msg es w)) \<and>
   scheduled (run fl atob msg es w) = scheduled w \<and>
   loopCalls (run fl atob msg es w) = loopCalls w \<and>
   sourcesRef (ui (run fl atob msg es w)) = []"
proof (induction es arbitrary: w)
  case Nil
  then show ?case by (simp add: run_def)
next
  case (Cons e es)
  from Cons.prems have e: "\<not> isSpeak e" and es: "\<forall>e \<in> set es. \<not> isSpeak e" by auto
  note s = step_stopped [OF e Cons.prems(2), of fl atob msg]
  from s Cons.prems(3) have "sourcesRef (ui (step fl atob msg e w)) = []" by blast
  from Cons.IH [OF es _ this, of ] s
  have "\<not> isSpeakingRef (ui (run fl atob msg es (step fl atob msg e w))) \<and>
        scheduled (run fl atob msg es (step fl atob msg e w)) = scheduled w \<and>
        loopCalls (run fl atob msg es (step fl atob msg e w)) = loopCalls w \<and>
        sourcesRef (ui (run fl atob msg es (step fl atob msg e w))) = []"
    by simp
  then show ?case by (simp add: run_def)
qed

subsection \<open>Facts about the example runs\<close>

lemma cleanText_a: "cleanText [0x61] = [0x61]"
  by (rule cleanText_plain) (simp_all add: plain_def isSpace_def)

lemma segment_a: "segment [0x61] = [[0x61]]"
proof -
  have "matchAt [0x61] = Some ([0x61], [])" by (simp add: matchAt_def isDelim_def)
  then have "matchAll [0x61] = [0x61] # matchAll []" by (subst matchAll.simps) simp
  then have "sentences [0x61] = [[0x61]]" by (simp add: sentences_def matchAll.simps)
  then show ?thesis by (simp add: segment_def makeChunks_def)
qed

lemma cleanText_dot_a: "cleanText [0x2E, 0x61] = [0x2E, 0x61]"
  by (rule cleanText_plain) (simp_all add: plain_def isSpace_def)

lemma dot_a_request:
  "speechCalls (handleSpeak [0x2E, 0x61] False 0 (mounted twoKeys)) = [([0x61], 0)]"
  by (simp add: handleSpeak_def startLoop_def continueLoop_def callStreamSpeech_def mounted_def
      idle_def Let_def cleanText_dot_a segment_dot_a)

lemma cleanText_twoChunks: "cleanText twoChunks = twoChunks"
  by (rule cleanText_plain) (auto simp: twoChunks_def plain_def isSpace_def)

lemma segment_twoChunks:
  "segment twoChunks = [replicate 150 0x61 @ [0x2E], replicate 150 0x62 @ [0x2E]]"
proof -
  have nd: "\<not> isDelim 0x61" "\<not> isDelim 0x62" "isDelim 0x2E" by (simp_all add: isDelim_def)
  have m1: "matchAt twoChunks = Some (replicate 150 0x61 @ [0x2E], replicate 150 0x62 @ [0x2E])"
    using nd by (simp add: matchAt_def twoChunks_def takeWhile_replicate_append
        dropWhile_replicate_append)
  have m2: "matchAt (replicate 150 0x62 @ [0x2E]) = Some (replicate 150 0x62 @ [0x2E], [])"
    using nd by (simp add: matchAt_def takeWhile_replicate_append dropWhile_replicate_append)
  have ne: "twoChunks \<noteq> []" by (simp add: twoChunks_def)
  have "matchAll twoChunks = (replicate 150 0x61 @ [0x2E]) # matchAll (replicate 150 0x62 @ [0x2E])"
    by (subst matchAll.simps) (simp add: m1 ne)
  also have "matchAll (replicate 150 0x62 @ [0x2E]) = (replicate 150 0x62 @ [0x2E]) # matchAll []"
    by (subst matchAll.simps) (simp add: m2)
  also have "matchAll [] = []" by (simp add: matchAll.simps)
  finally have "sentences twoChunks = [replicate 150 0x61 @ [0x2E], replicate 150 0x62 @ [0x2E]]"
    by (simp add: sentences_def)
  then show ?thesis by (simp add: segment_def makeChunks_def)
qed

lemma twoChunks_nonempty: "twoChunks \<noteq> []"
  by (simp add: twoChunks_def)

lemmas run_simps = run_def step_def pressButton_def handleSpeak_def startLoop_def continueLoop_def
  callStreamSpeech_def onAudioChunk_def scheduleChunk_def stopAudio_def mounted_def idle_def
  settle_def catchRetry_def rotateApiKey_def Let_def decodePCM_sample duration_def

lemma playing_eq:
  "playing fl =
     \<lparr>ui = \<lparr>isSpeaking = True, isLoadingAudio = False, audioContextRef = True,
            sourcesRef = [\<lparr>node = 0, samples = [0], startedAt = 0\<rparr>],
            nextStartTimeRef = fl (fl (1 / 24000)), isSpeakingRef = True, stopCalls = [], console = [],
            nodesMade = 1\<rparr>,
      credentials = twoKeys,
      inFlight = [\<lparr>callId = 0, spoken = replicate 150 0x61 @ [0x2E], retry = 0,
                   waiting = Some [replicate 150 0x62 @ [0x2E]]\<rparr>],
      callsMade = 1, resuming = [],
      speechCalls = [(replicate 150 0x61 @ [0x2E], 0)],
      scheduled = [[0x41, 0x41, 0x41, 0x3D]]\<rparr>"
  by (simp add: playing_def run_simps cleanText_twoChunks segment_twoChunks twoChunks_nonempty)

lemma stopped_eq: "run fl atobSample twoChunks [Speak False 1] (playing fl) = (playing fl)\<lparr>ui := stopAudio (ui (playing fl))\<rparr>"
  by (simp add: run_def step_def pressButton_def handleSpeak_def playing_eq)


lemma cleanText_longFirst: "cleanText longFirst = longFirst"
  by (rule cleanText_plain) (auto simp: longFirst_def plain_def isSpace_def)

lemma packLoop_prefix: "packLoop ss chunks t = (cs, t') \<Longrightarrow> \<exists>later. cs = chunks @ later"
proof (induction ss arbitrary: chunks t)
  case Nil
  then show ?case by simp
next
  case (Cons x rest)
  show ?case
  proof (cases "length t + length x > 200")
    case True
    with Cons.prems have "packLoop rest (chunks @ [t]) x = (cs, t')" by simp
    from Cons.IH [OF this] show ?thesis by auto
  next
    case False
    with Cons.prems have "packLoop rest chunks (t @ x) = (cs, t')" by simp
    from Cons.IH [OF this] show ?thesis .
  qed
qed

lemma makeChunks_long_first:
  assumes "200 < length s"
  shows "\<exists>cs. makeChunks (s # ss) = [] # cs"
proof -
  obtain cs t' where p: "packLoop ss [[]] s = (cs, t')" by (cases "packLoop ss [[]] s")
  from packLoop_prefix [OF p] obtain later where "cs = [] # later" by auto
  with p assms show ?thesis by (auto simp: makeChunks_def)
qed

subsection \<open>Claims about the orchestration\<close>

text \<open>
  What \<^verbatim>\<open>stopAudio\<close> has done when it returns: no node is active, \<^verbatim>\<open>stop()\<close> was called on
  every node that was, the cursor is 0, and the two state variables and the flag are false.
\<close>

lemma stopAudio_post:
  "sourcesRef (stopAudio s) = [] \<and>
   set (map node (sourcesRef s)) \<subseteq> set (stopCalls (stopAudio s)) \<and>
   nextStartTimeRef (stopAudio s) = 0 \<and>
   \<not> isSpeaking (stopAudio s) \<and> \<not> isLoadingAudio (stopAudio s) \<and> phase (stopAudio s) = Idle \<and>
   \<not> isSpeakingRef (stopAudio s)"
  by (simp add: stopAudio_def phase_def)

text \<open>
  C3. The claim: once \<^verbatim>\<open>stopAudio\<close> has run, no frame is forwarded to \<^verbatim>\<open>scheduleChunk\<close> any
  more, frames of a call in flight at that time included, and no further chunk is
  requested. The code does not keep this when the button is pressed again while the call
  of the stopped playback is still in flight. In the example the first press after
  \<open>playing\<close> stops: the flag is false, no node is active, and call 0 is still in flight. The
  second press starts a new playback and sets the one flag again. Then the next frame of
  call 0 is scheduled, and when the stream of call 0 ends, the loop of the stopped
  playback calls for its second chunk, beside the first chunk that the new playback has
  called for.
\<close>

theorem stop_then_restart_leaks:
  "\<not> isSpeakingRef (ui (run fl atobSample twoChunks [Speak False 1] (playing fl))) \<and>
   sourcesRef (ui (run fl atobSample twoChunks [Speak False 1] (playing fl))) = [] \<and>
   map callId (inFlight (run fl atobSample twoChunks [Speak False 1] (playing fl))) = [0] \<and>
   scheduled (run fl atobSample twoChunks
                [Speak False 1, Speak False 2, Frame 0 (Some [0x41, 0x41, 0x41, 0x3D]) 3] (playing fl)) =
     scheduled (run fl atobSample twoChunks [Speak False 1] (playing fl)) @ [[0x41, 0x41, 0x41, 0x3D]] \<and>
   map node (sourcesRef (ui (run fl atobSample twoChunks
                [Speak False 1, Speak False 2, Frame 0 (Some [0x41, 0x41, 0x41, 0x3D]) 3] (playing fl)))) = [1] \<and>
   loopCalls (run fl atobSample twoChunks [Speak False 1] (playing fl)) = [replicate 150 0x61 @ [0x2E]] \<and>
   loopCalls (run fl atobSample twoChunks [Speak False 1, Speak False 2, StreamEnd 0] (playing fl)) =
     [replicate 150 0x61 @ [0x2E], replicate 150 0x61 @ [0x2E], replicate 150 0x62 @ [0x2E]]"
  by (simp add: playing_eq run_simps loopCalls_def cleanText_twoChunks segment_twoChunks twoChunks_nonempty)

text \<open>
  Two more facts about a stop. A call in flight that fails after the stop still makes its
  retry: \<^verbatim>\<open>streamSpeech\<close> does not see the flag. And for as long as the button is not pressed
  again, the flag stays false, nothing is scheduled and the loop calls for no chunk
  (\<open>run_stopped\<close> above); here the late frame of call 0 and the end of its stream change
  neither log.
\<close>

lemma stop_then_error_retries:
  "speechCalls (run fl atobSample twoChunks [Speak False 1, StreamError 0] (playing fl)) =
     [(replicate 150 0x61 @ [0x2E], 0), (replicate 150 0x61 @ [0x2E], 1)] \<and>
   map (\<lambda>c. (spoken c, retry c))
     (inFlight (run fl atobSample twoChunks [Speak False 1, StreamError 0] (playing fl))) =
     [(replicate 150 0x61 @ [0x2E], 1)]"
  by (simp add: playing_eq run_simps twoKeys_def)

lemma stop_then_late_frame:
  "scheduled (run fl atobSample twoChunks
     [Speak False 1, Frame 0 (Some [0x41, 0x41, 0x41, 0x3D]) 2, StreamEnd 0] (playing fl)) =
     scheduled (playing fl) \<and>
   loopCalls (run fl atobSample twoChunks
     [Speak False 1, Frame 0 (Some [0x41, 0x41, 0x41, 0x3D]) 2, StreamEnd 0] (playing fl)) =
     loopCalls (playing fl)"
  by (simp add: playing_eq run_simps loopCalls_def)



text \<open>
  C9. The claim: the loop does not call for chunk k+1 before the call for chunk k, retries
  included, is over. In the code the retry is started without \<^verbatim>\<open>await\<close>, so the promise
  the loop awaits settles as soon as the first attempt has failed. After the button press
  and the failure of the first attempt for the first chunk, two calls are in flight: the
  retry for the first chunk, which nobody awaits, and the call for the second chunk.
\<close>

theorem retry_not_awaited:
  "map (\<lambda>c. (spoken c, retry c, waiting c))
     (inFlight (run fl atobSample twoChunks [Speak False 0, StreamError 0] (mounted twoKeys))) =
   [(replicate 150 0x61 @ [0x2E], 1, None), (replicate 150 0x62 @ [0x2E], 0, Some [])]"
  by (simp add: run_simps cleanText_twoChunks segment_twoChunks twoChunks_nonempty twoKeys_def)

text \<open>
  C10. When the first sentence of the cleaned text is longer than 200 code units, the chunk
  list starts with the empty string, and the loop, entered with the flag set (as it is when
  \<^verbatim>\<open>handleSpeak\<close> starts a playback without having to resume the audio context), first calls
  \<^verbatim>\<open>streamSpeech\<close> with the empty string.
\<close>

theorem empty_first_chunk:
  assumes "sentences (cleanText msg) = s # ss" and "200 < length s"
  shows "(\<exists>cs. segment (cleanText msg) = [] # cs) \<and>
         (isSpeakingRef (ui w) \<longrightarrow>
            speechCalls (startLoop (cleanText msg) now w) = speechCalls w @ [([], 0)]) \<and>
         (\<not> isSpeaking (ui w) \<and> \<not> isLoadingAudio (ui w) \<longrightarrow>
            speechCalls (handleSpeak msg False now w) = speechCalls w @ [([], 0)])"
proof -
  from makeChunks_long_first [OF assms(2), of ss] assms(1)
  obtain cs where seg: "segment (cleanText msg) = [] # cs" by (auto simp: segment_def)
  have ne: "cleanText msg \<noteq> []"
  proof
    assume "cleanText msg = []"
    then have "sentences (cleanText msg) = [[]]" by (simp add: sentences_def matchAll.simps)
    with assms show False by simp
  qed
  have loop: "speechCalls (startLoop (cleanText msg) now v) = speechCalls v @ [([], 0)]"
    if "isSpeakingRef (ui v)" for v
    using that by (simp add: startLoop_def continueLoop_def callStreamSpeech_def seg)
  have "speechCalls (handleSpeak msg False now w) = speechCalls w @ [([], 0)]"
    if "\<not> isSpeaking (ui w)" "\<not> isLoadingAudio (ui w)"
  proof -
    let ?w2 = "w\<lparr>ui := (ui w)\<lparr>isLoadingAudio := True, isSpeaking := True, isSpeakingRef := True,
                                 audioContextRef := True\<rparr>\<rparr>"
    from that ne have "handleSpeak msg False now w = startLoop (cleanText msg) now ?w2"
      by (simp add: handleSpeak_def Let_def)
    moreover have "isSpeakingRef (ui ?w2)" by simp
    ultimately show ?thesis using loop [of ?w2] by simp
  qed
  with seg loop show ?thesis by blast
qed

theorem empty_first_chunk_witness:
  "sentences (cleanText longFirst) = [replicate 201 0x61 @ [0x2E], [0x62]] \<and>
   200 < length (replicate 201 (0x61 :: 16 word) @ [0x2E]) \<and>
   \<not> isSpeaking (ui (mounted twoKeys)) \<and> \<not> isLoadingAudio (ui (mounted twoKeys)) \<and>
   speechCalls (handleSpeak longFirst False 0 (mounted twoKeys)) = [([], 0)]"
proof -
  have s: "sentences (cleanText longFirst) = (replicate 201 0x61 @ [0x2E]) # [[0x62]]"
    by (simp add: cleanText_longFirst) (simp add: longFirst_def sentences_long)
  have l: "200 < length (replicate 201 (0x61 :: 16 word) @ [0x2E])" by simp
  have i: "\<not> isSpeaking (ui (mounted twoKeys))" "\<not> isLoadingAudio (ui (mounted twoKeys))"
    by (simp_all add: mounted_def idle_def)
  have e: "speechCalls (mounted twoKeys) = []" by (simp add: mounted_def)
  from empty_first_chunk [OF s l, of "mounted twoKeys" 0] i
  have "speechCalls (handleSpeak longFirst False 0 (mounted twoKeys)) = speechCalls (mounted twoKeys) @ [([], 0)]"
    by blast
  with e have "speechCalls (handleSpeak longFirst False 0 (mounted twoKeys)) = [([], 0)]"
    by simp
  with s l i show ?thesis by simp
qed

end
